theory Spec2Isabelle
  imports Main "HOL-Library.Sublist" "HOL-Library.AList"
begin

text \<open>
  A model of \<open>file-rename.py\<close>: the methods of \<open>GitFileRename\<close> that find the entries
  whose name holds a string, copy them under the substituted name, substitute in the
  content of files, and tally the repositories of a run. The filesystem is an explicit
  state that every method takes and returns, an exception is a value \<open>Inl\<close>, and a loop
  is a recursive function over the list it runs through. What the program prints, what
  it appends to its log file and the pauses between retries are left out; the \<open>git\<close>
  and \<open>file\<close> binaries are parameters.
\<close>

section \<open>Python string operations used by file-rename.py\<close>

text \<open>
  Text is a list of characters. The model covers ASCII text: \<open>lower\<close> folds the
  letters A to Z and leaves every other character alone, so the case rules of
  \<open>str.lower\<close> and \<open>re.IGNORECASE\<close> beyond ASCII are outside the model.
\<close>

definition backslash :: char where
  "backslash = CHR 0x5C"

definition lower_char :: "char \<Rightarrow> char" where
  "lower_char c =
     (case map_of (zip ''ABCDEFGHIJKLMNOPQRSTUVWXYZ'' ''abcdefghijklmnopqrstuvwxyz'') c of
        Some d \<Rightarrow> d
      | None \<Rightarrow> c)"

definition lower :: "string \<Rightarrow> string" where
  "lower s = map lower_char s"

text \<open>\<open>sub in s\<close>: a left-to-right search for a contiguous occurrence.\<close>

fun contains :: "string \<Rightarrow> string \<Rightarrow> bool" where
  "contains sub [] = (sub = [])"
| "contains sub (c # cs) = (prefix sub (c # cs) \<or> contains sub cs)"

text \<open>
  \<open>s.replace(old, new)\<close>: every non-overlapping occurrence, leftmost first. With an
  empty \<open>old\<close> Python inserts \<open>new\<close> before every character and at the end.
\<close>

fun replace_scan :: "string \<Rightarrow> string \<Rightarrow> string \<Rightarrow> string" where
  "replace_scan old new [] = []"
| "replace_scan old new (c # cs) =
     (if prefix old (c # cs) then new @ replace_scan old new (drop (length old - 1) cs)
      else c # replace_scan old new cs)"

definition str_replace :: "string \<Rightarrow> string \<Rightarrow> string \<Rightarrow> string" where
  "str_replace old new s =
     (if old = [] then new @ concat (map (\<lambda>c. c # new) s) else replace_scan old new s)"

text \<open>\<open>s.rstrip(chars)\<close> removes every trailing character that is a member of \<open>chars\<close>.\<close>

definition rstrip :: "string \<Rightarrow> string \<Rightarrow> string" where
  "rstrip chars s = rev (dropWhile (\<lambda>c. c \<in> set chars) (rev s))"

text \<open>\<open>s.split(sep)\<close> for a one-character separator; the result is never empty.\<close>

fun split_acc :: "char \<Rightarrow> string \<Rightarrow> string \<Rightarrow> string list" where
  "split_acc sep acc [] = [rev acc]"
| "split_acc sep acc (c # cs) =
     (if c = sep then rev acc # split_acc sep [] cs else split_acc sep (c # acc) cs)"

definition split :: "char \<Rightarrow> string \<Rightarrow> string list" where
  "split sep s = split_acc sep [] s"

section \<open>The regular-expression calls\<close>

text \<open>
  The case-insensitive paths build \<open>re.compile(re.escape(old_str), re.IGNORECASE)\<close>: a
  pattern without groups that matches \<open>old_str\<close> literally, letters in either case.
  \<open>pattern.sub(new_str, s)\<close> does not insert \<open>new_str\<close> as it stands: \<open>re\<close> reads the
  replacement as a template whenever it holds a backslash. \<open>parse_template\<close> follows
  \<open>re._parser.parse_template\<close> (CPython 3.12) for a pattern with no group: a literal
  character, an escape of the table \<open>ESCAPES\<close>, an octal escape, the whole match
  \<open>\g<0>\<close>, and the error \<open>re.error\<close> (or \<open>IndexError\<close> for an unknown group name,
  folded into the same value) for everything else that starts with a backslash and a
  letter or digit.
\<close>

datatype py_error =
    ReError
  | FileNotFoundError
  | NotADirectoryError
  | IsADirectoryError
  | PermissionError
  | FileExistsError
  | SameFileError
  | ShutilError
  | RecursionError
  | CalledProcessError
  | OtherError

datatype tpart = Lit char | WholeMatch

definition is_digit :: "char \<Rightarrow> bool" where
  "is_digit c = (c \<in> set ''0123456789'')"

definition is_octdigit :: "char \<Rightarrow> bool" where
  "is_octdigit c = (c \<in> set ''01234567'')"

definition is_ascii_letter :: "char \<Rightarrow> bool" where
  "is_ascii_letter c =
     (c \<in> set ''abcdefghijklmnopqrstuvwxyzABCDEFGHIJKLMNOPQRSTUVWXYZ'')"

definition octal_value :: "string \<Rightarrow> nat" where
  "octal_value ds = foldl (\<lambda>v d. 8 * v + ((of_char d :: nat) - 48)) 0 ds"

definition escape_char :: "char \<Rightarrow> char option" where
  "escape_char c =
     (if c = CHR ''a'' then Some (CHR 0x07)
      else if c = CHR ''b'' then Some (CHR 0x08)
      else if c = CHR ''f'' then Some (CHR 0x0C)
      else if c = CHR ''n'' then Some (CHR 0x0A)
      else if c = CHR ''r'' then Some (CHR 0x0D)
      else if c = CHR ''t'' then Some (CHR 0x09)
      else if c = CHR ''v'' then Some (CHR 0x0B)
      else if c = backslash then Some backslash
      else None)"

definition emit :: "tpart list \<Rightarrow> py_error + tpart list \<Rightarrow> py_error + tpart list" where
  "emit ps r = (case r of Inl e \<Rightarrow> Inl e | Inr qs \<Rightarrow> Inr (ps @ qs))"

function parse_template :: "string \<Rightarrow> py_error + tpart list" where
  "parse_template [] = Inr []"
| "parse_template (c # cs) =
     (if c \<noteq> backslash then emit [Lit c] (parse_template cs)
      else case cs of
        [] \<Rightarrow> Inl ReError
      | d # ds \<Rightarrow>
          if d = CHR ''g'' then
            (if \<not> prefix ''<'' ds then Inl ReError
             else
               let name = takeWhile (\<lambda>x. x \<noteq> CHR ''>'') (tl ds);
                   rest = dropWhile (\<lambda>x. x \<noteq> CHR ''>'') (tl ds)
               in if rest = [] \<or> name = [] then Inl ReError
                  else if list_all is_digit name \<and> list_all (\<lambda>x. x = CHR ''0'') name
                  then emit [WholeMatch] (parse_template (tl rest))
                  else Inl ReError)
          else if d = CHR ''0'' then
            (let k = length (takeWhile is_octdigit (take 2 ds))
             in emit [Lit (char_of (octal_value (take k ds) mod 256))] (parse_template (drop k ds)))
          else if is_digit d then
            (if 2 \<le> length ds \<and> is_octdigit d \<and> is_octdigit (ds ! 0) \<and> is_octdigit (ds ! 1)
                \<and> octal_value (d # take 2 ds) \<le> 255
             then emit [Lit (char_of (octal_value (d # take 2 ds)))] (parse_template (drop 2 ds))
             else Inl ReError)
          else
            (case escape_char d of
               Some e \<Rightarrow> emit [Lit e] (parse_template ds)
             | None \<Rightarrow>
                 if is_ascii_letter d then Inl ReError
                 else emit [Lit backslash, Lit d] (parse_template ds)))"
  by pat_completeness auto
termination
proof (relation "measure length", goal_cases)
  case (3 c cs d ds name rest)
  have "length (dropWhile (\<lambda>x. x \<noteq> CHR ''>'') (tl ds)) \<le> length (tl ds)"
    by (rule length_dropWhile_le)
  with 3 show ?case by simp
qed simp_all

text \<open>The text a parsed template stands for at one match.\<close>

fun expand :: "tpart list \<Rightarrow> string \<Rightarrow> string" where
  "expand [] m = []"
| "expand (Lit c # ps) m = c # expand ps m"
| "expand (WholeMatch # ps) m = m @ expand ps m"

text \<open>A match of the escaped pattern at the start of \<open>s\<close>, ignoring case.\<close>

definition ci_prefix :: "string \<Rightarrow> string \<Rightarrow> bool" where
  "ci_prefix old s = prefix (lower old) (lower s)"

text \<open>\<open>pattern.search(s)\<close>, as the truth value the source tests.\<close>

fun re_search_ignorecase :: "string \<Rightarrow> string \<Rightarrow> bool" where
  "re_search_ignorecase old [] = (old = [])"
| "re_search_ignorecase old (c # cs) = (ci_prefix old (c # cs) \<or> re_search_ignorecase old cs)"

fun sub_scan :: "string \<Rightarrow> tpart list \<Rightarrow> string \<Rightarrow> string" where
  "sub_scan old t [] = []"
| "sub_scan old t (c # cs) =
     (if ci_prefix old (c # cs)
      then expand t (take (length old) (c # cs)) @ sub_scan old t (drop (length old - 1) cs)
      else c # sub_scan old t cs)"

text \<open>
  \<open>pattern.sub(new_str, s)\<close>. The template is compiled before the scan, so a bad
  template raises whether or not the pattern matches. An empty pattern matches before
  every character and at the end.
\<close>

definition re_sub_ignorecase :: "string \<Rightarrow> string \<Rightarrow> string \<Rightarrow> py_error + string" where
  "re_sub_ignorecase old new s =
     (case parse_template new of
        Inl e \<Rightarrow> Inl e
      | Inr t \<Rightarrow>
          Inr (if old = [] then expand t [] @ concat (map (\<lambda>c. c # expand t []) s)
               else sub_scan old t s))"

section \<open>Configuration\<close>

type_synonym path = "string list"

datatype node = Dir | File (file_text: string) (readable: bool) (writable: bool)

type_synonym fs = "(path \<times> node) list"

text \<open>
  The fields of \<open>GitFileRename\<close> that the modelled methods read. \<open>file_cmd\<close> stands for
  the external \<open>file\<close> utility: the standard output of \<open>file <path>\<close> for the entry
  found at the path, or the exception \<open>subprocess.run\<close> raises when it cannot run.
\<close>

record config =
  git_base_url :: string
  git_auth_method :: string
  git_username :: string
  git_auth_token :: string
  case_sensitive :: bool
  file_cmd :: "path \<Rightarrow> node option \<Rightarrow> py_error + string"

section \<open>Repository names and URLs\<close>

definition is_full_url :: "string \<Rightarrow> bool" where
  "is_full_url repo_input =
     (prefix ''http://'' repo_input \<or> prefix ''https://'' repo_input \<or> prefix ''git@'' repo_input)"

definition construct_repo_url :: "('a config_scheme) \<Rightarrow> string \<Rightarrow> string" where
  "construct_repo_url cfg repo_input =
     (if is_full_url repo_input then repo_input
      else
        let repo_name = rstrip ''.git'' repo_input in
        if git_auth_method cfg = ''token'' then
          (let base_url = str_replace ''https://'' '''' (git_base_url cfg)
           in ''https://'' @ git_username cfg @ '':'' @ git_auth_token cfg @ ''@'' @ base_url
              @ ''/'' @ repo_name @ ''.git'')
        else if git_auth_method cfg = ''ssh'' then
          (if contains ''github.com'' (git_base_url cfg) then
             (let org = last (split (CHR ''/'') (git_base_url cfg))
              in ''git@github.com:'' @ org @ ''/'' @ repo_name @ ''.git'')
           else git_base_url cfg @ ''/'' @ repo_name @ ''.git'')
        else git_base_url cfg @ ''/'' @ repo_name @ ''.git'')"

definition get_repo_name :: "string \<Rightarrow> string" where
  "get_repo_name repo_input =
     (if is_full_url repo_input then
        (let name = last (split (CHR ''/'') (rstrip ''/'' repo_input))
         in if suffix ''.git'' name then take (length name - 4) name else name)
      else rstrip ''.git'' repo_input)"

section \<open>The filesystem\<close>

text \<open>
  A path is the list of its components from the root, as \<open>pathlib\<close> holds it: no empty
  component and no dot, but possibly \<open>..\<close>. The filesystem maps the canonical path of
  every entry (no \<open>..\<close>) to its node; the root is a directory and has no entry. A file
  carries its decoded text and whether the process may read and write it. Symbolic
  links, directory permissions, and the decoding and newline translation of text mode
  are outside the model.
\<close>

definition name_of :: "path \<Rightarrow> string" where
  "name_of p = (if p = [] then [] else last p)"

definition parent :: "path \<Rightarrow> path" where
  "parent p = butlast p"

text \<open>\<open>parent / name\<close>: an absolute right operand replaces the left one.\<close>

definition path_parts :: "string \<Rightarrow> string list" where
  "path_parts s = filter (\<lambda>x. x \<noteq> [] \<and> x \<noteq> ''.'') (split (CHR ''/'') s)"

definition joinpath :: "path \<Rightarrow> string \<Rightarrow> path" where
  "joinpath p s = (if prefix ''/'' s then path_parts s else p @ path_parts s)"

text \<open>
  The kernel's path walk: every component is looked up in a directory, \<open>..\<close> steps to
  the parent (the root is its own parent). The result is the canonical path the last
  component names, whether or not an entry stands there.
\<close>

definition dir_at :: "fs \<Rightarrow> path \<Rightarrow> bool" where
  "dir_at fs q = (q = [] \<or> map_of fs q = Some Dir)"

fun walk :: "fs \<Rightarrow> path \<Rightarrow> path \<Rightarrow> path option" where
  "walk fs cur [] = Some cur"
| "walk fs cur (c # cs) =
     (if dir_at fs cur then walk fs (if c = ''..'' then butlast cur else cur @ [c]) cs
      else None)"

definition canon :: "fs \<Rightarrow> path \<Rightarrow> path option" where
  "canon fs p = walk fs [] p"

definition lookup :: "fs \<Rightarrow> path \<Rightarrow> node option" where
  "lookup fs p =
     (case canon fs p of
        None \<Rightarrow> None
      | Some q \<Rightarrow> if q = [] then Some Dir else map_of fs q)"

definition path_exists :: "fs \<Rightarrow> path \<Rightarrow> bool" where
  "path_exists fs p = (lookup fs p \<noteq> None)"

definition is_dir :: "fs \<Rightarrow> path \<Rightarrow> bool" where
  "is_dir fs p = (lookup fs p = Some Dir)"

definition is_file :: "fs \<Rightarrow> path \<Rightarrow> bool" where
  "is_file fs p = (case lookup fs p of Some (File c r w) \<Rightarrow> True | _ \<Rightarrow> False)"

text \<open>\<open>open(p, 'r')\<close> and \<open>read()\<close>.\<close>

definition read_text :: "fs \<Rightarrow> path \<Rightarrow> py_error + string" where
  "read_text fs p =
     (case lookup fs p of
        None \<Rightarrow> Inl FileNotFoundError
      | Some Dir \<Rightarrow> Inl IsADirectoryError
      | Some (File c r w) \<Rightarrow> if r then Inr c else Inl PermissionError)"

text \<open>
  \<open>open(p, 'w')\<close> and \<open>write(s)\<close>: truncates a writable file, creates a missing one in an
  existing directory, and fails before any change otherwise.
\<close>

definition write_text :: "fs \<Rightarrow> path \<Rightarrow> string \<Rightarrow> py_error + fs" where
  "write_text fs p s =
     (case canon fs p of
        None \<Rightarrow> Inl FileNotFoundError
      | Some q \<Rightarrow>
          if q = [] then Inl IsADirectoryError
          else case map_of fs q of
            None \<Rightarrow> Inr (fs @ [(q, File s True True)])
          | Some Dir \<Rightarrow> Inl IsADirectoryError
          | Some (File c r w) \<Rightarrow>
              if w then Inr (AList.update q (File s r w) fs) else Inl PermissionError)"

text \<open>
  \<open>shutil.copy2(src, dst)\<close>: copies into \<open>dst\<close> when that is a directory, overwrites an
  existing writable file, and copies the permission bits with the content.
\<close>

definition copy2 :: "fs \<Rightarrow> path \<Rightarrow> path \<Rightarrow> py_error + fs" where
  "copy2 fs src dst =
     (let dst' = (if is_dir fs dst then dst @ [name_of src] else dst) in
      case lookup fs src of
        None \<Rightarrow> Inl FileNotFoundError
      | Some Dir \<Rightarrow> Inl IsADirectoryError
      | Some (File c r w) \<Rightarrow>
          if canon fs src = canon fs dst' then Inl SameFileError
          else if \<not> r then Inl PermissionError
          else case canon fs dst' of
            None \<Rightarrow> Inl FileNotFoundError
          | Some q \<Rightarrow>
              if q = [] then Inl IsADirectoryError
              else case map_of fs q of
                None \<Rightarrow> Inr (fs @ [(q, File c r w)])
              | Some Dir \<Rightarrow> Inl IsADirectoryError
              | Some (File c' r' w') \<Rightarrow>
                  if w' then Inr (AList.update q (File c r w) fs) else Inl PermissionError)"

text \<open>
  \<open>os.makedirs(dst)\<close>: makes every missing directory on the way and the last one, which
  must not exist. The directories made before a failure stay.
\<close>

fun makedirs_walk :: "fs \<Rightarrow> path \<Rightarrow> path \<Rightarrow> fs \<times> (py_error + path)" where
  "makedirs_walk fs cur [] = (fs, Inr cur)"
| "makedirs_walk fs cur (c # cs) =
     (let nxt = (if c = ''..'' then butlast cur else cur @ [c]) in
      if dir_at fs nxt then
        (if cs = [] then (fs, Inl FileExistsError) else makedirs_walk fs nxt cs)
      else if map_of fs nxt = None then makedirs_walk (fs @ [(nxt, Dir)]) nxt cs
      else (fs, Inl (if cs = [] then FileExistsError else NotADirectoryError)))"

definition makedirs :: "fs \<Rightarrow> path \<Rightarrow> fs \<times> (py_error + path)" where
  "makedirs fs p = (if p = [] then (fs, Inl FileExistsError) else makedirs_walk fs [] p)"

text \<open>
  \<open>shutil.copytree(src, dst)\<close>: lists \<open>src\<close>, makes \<open>dst\<close>, then copies every entry below
  \<open>src\<close> to the same place below \<open>dst\<close>. A file it cannot read is skipped, the rest is
  still copied, and \<open>shutil.Error\<close> is raised at the end. When \<open>dst\<close> lies two or more
  levels below \<open>src\<close> inside a directory that was there before the call, the recursion
  of \<open>copytree\<close> meets its own output and ends in an exception; the model reports the
  exception with the state left by \<open>makedirs\<close>.
\<close>

definition copyable :: "node \<Rightarrow> bool" where
  "copyable n = (case n of Dir \<Rightarrow> True | File c r w \<Rightarrow> r)"

definition copytree :: "fs \<Rightarrow> path \<Rightarrow> path \<Rightarrow> fs \<times> (py_error + unit)" where
  "copytree fs src dst =
     (case canon fs src of
        None \<Rightarrow> (fs, Inl FileNotFoundError)
      | Some s \<Rightarrow>
          if \<not> dir_at fs s then (fs, Inl NotADirectoryError)
          else
            let entries = filter (\<lambda>(k, n). strict_prefix s k) fs in
            case makedirs fs dst of
              (fs1, Inl e) \<Rightarrow> (fs1, Inl e)
            | (fs1, Inr q) \<Rightarrow>
                if prefix s q \<and> length s + 1 < length q \<and> dir_at fs (take (length s + 1) q)
                then (fs1, Inl RecursionError)
                else
                  (fs1 @ map (\<lambda>(k, n). (q @ drop (length s) k, n))
                           (filter (\<lambda>(k, n). copyable n) entries),
                   if list_all (\<lambda>(k, n). copyable n) entries then Inr () else Inl ShutilError))"

text \<open>
  \<open>d.rglob('*')\<close>: every entry below \<open>d\<close>, each as \<open>d\<close> followed by its relative path.
\<close>

definition rglob :: "fs \<Rightarrow> path \<Rightarrow> path list" where
  "rglob fs d =
     (case canon fs d of
        None \<Rightarrow> []
      | Some q \<Rightarrow>
          if dir_at fs q
          then map (\<lambda>k. d @ drop (length q) k) (filter (strict_prefix q) (map fst fs))
          else [])"

text \<open>
  A filesystem is well formed when it is a tree: no path has two entries, the path of
  an entry is canonical, and every entry other than a child of the root lies in a
  directory that has an entry.
\<close>

definition wf_fs :: "fs \<Rightarrow> bool" where
  "wf_fs fs =
     (distinct (map fst fs)
      \<and> list_all (\<lambda>(k, n). k \<noteq> [] \<and> ''..'' \<notin> set k \<and> dir_at fs (butlast k)) fs)"

section \<open>The rename and fix engine\<close>

definition find_items_with_pattern :: "'a config_scheme \<Rightarrow> fs \<Rightarrow> path \<Rightarrow> string \<Rightarrow> path list" where
  "find_items_with_pattern cfg fs repo_dir pattern =
     filter (\<lambda>item.
        ''.git'' \<notin> set item
        \<and> (if case_sensitive cfg then contains pattern (name_of item)
           else contains (lower pattern) (lower (name_of item))))
       (rglob fs repo_dir)"

text \<open>
  The body of \<open>replace_content_in_file\<close> inside its \<open>try\<close>: \<open>Inl\<close> is an exception raised
  while classifying, reading, substituting or writing.
\<close>

definition replace_content_body ::
  "'a config_scheme \<Rightarrow> fs \<Rightarrow> path \<Rightarrow> string \<Rightarrow> string \<Rightarrow> py_error + (fs \<times> bool)" where
  "replace_content_body cfg fs file_path old_str new_str =
     (case file_cmd cfg file_path (lookup fs file_path) of
        Inl e \<Rightarrow> Inl e
      | Inr out \<Rightarrow>
          if \<not> contains ''text'' (lower out) then Inr (fs, False)
          else case read_text fs file_path of
            Inl e \<Rightarrow> Inl e
          | Inr content \<Rightarrow>
              if case_sensitive cfg then
                (if \<not> contains old_str content then Inr (fs, False)
                 else case write_text fs file_path (str_replace old_str new_str content) of
                   Inl e \<Rightarrow> Inl e
                 | Inr fs' \<Rightarrow> Inr (fs', True))
              else
                (if \<not> re_search_ignorecase old_str content then Inr (fs, False)
                 else case re_sub_ignorecase old_str new_str content of
                   Inl e \<Rightarrow> Inl e
                 | Inr new_content \<Rightarrow>
                     (case write_text fs file_path new_content of
                        Inl e \<Rightarrow> Inl e
                      | Inr fs' \<Rightarrow> Inr (fs', True))))"

text \<open>\<open>except Exception: return False\<close>.\<close>

definition replace_content_in_file ::
  "'a config_scheme \<Rightarrow> fs \<Rightarrow> path \<Rightarrow> string \<Rightarrow> string \<Rightarrow> fs \<times> bool" where
  "replace_content_in_file cfg fs file_path old_str new_str =
     (case replace_content_body cfg fs file_path old_str new_str of
        Inl e \<Rightarrow> (fs, False)
      | Inr r \<Rightarrow> r)"

fun replace_in_files ::
  "'a config_scheme \<Rightarrow> fs \<Rightarrow> path list \<Rightarrow> string \<Rightarrow> string \<Rightarrow> fs \<times> nat" where
  "replace_in_files cfg fs [] old_str new_str = (fs, 0)"
| "replace_in_files cfg fs (file_path # rest) old_str new_str =
     (if is_file fs file_path \<and> ''.git'' \<notin> set file_path then
        (case replace_content_in_file cfg fs file_path old_str new_str of
           (fs1, changed) \<Rightarrow>
             (case replace_in_files cfg fs1 rest old_str new_str of
                (fs2, n) \<Rightarrow> (fs2, (if changed then 1 else 0) + n)))
      else replace_in_files cfg fs rest old_str new_str)"

definition replace_content_in_directory ::
  "'a config_scheme \<Rightarrow> fs \<Rightarrow> path \<Rightarrow> string \<Rightarrow> string \<Rightarrow> fs \<times> nat" where
  "replace_content_in_directory cfg fs dir_path old_str new_str =
     replace_in_files cfg fs (rglob fs dir_path) old_str new_str"

text \<open>
  The name substitution at the head of \<open>create_renamed_copy\<close>: \<open>str.replace\<close> when
  case-sensitive, \<open>pattern.sub\<close> otherwise.
\<close>

definition transform_name :: "'a config_scheme \<Rightarrow> string \<Rightarrow> string \<Rightarrow> string \<Rightarrow> py_error + string" where
  "transform_name cfg item_name old_str new_str =
     (if case_sensitive cfg then Inr (str_replace old_str new_str item_name)
      else re_sub_ignorecase old_str new_str item_name)"

text \<open>
  \<open>create_renamed_copy\<close> has no \<open>try\<close>: an exception of \<open>pattern.sub\<close>, \<open>copytree\<close> or
  \<open>copy2\<close> leaves it with the filesystem as it stands at that moment.
\<close>

definition create_renamed_copy ::
  "'a config_scheme \<Rightarrow> fs \<Rightarrow> path \<Rightarrow> string \<Rightarrow> string \<Rightarrow> bool \<Rightarrow> fs \<times> (py_error + bool)" where
  "create_renamed_copy cfg fs original_item old_str new_str dry_run =
     (let item_name = name_of original_item in
      case transform_name cfg item_name old_str new_str of
        Inl e \<Rightarrow> (fs, Inl e)
      | Inr new_name \<Rightarrow>
          if new_name = item_name then (fs, Inr False)
          else
            let new_item = joinpath (parent original_item) new_name in
            if path_exists fs new_item then (fs, Inr False)
            else if dry_run then (fs, Inr True)
            else if is_dir fs original_item then
              (case copytree fs original_item new_item of
                 (fs1, Inl e) \<Rightarrow> (fs1, Inl e)
               | (fs1, Inr u) \<Rightarrow>
                   (fst (replace_content_in_directory cfg fs1 new_item old_str new_str), Inr True))
            else
              (case copy2 fs original_item new_item of
                 Inl e \<Rightarrow> (fs, Inl e)
               | Inr fs1 \<Rightarrow>
                   (fst (replace_content_in_file cfg fs1 new_item old_str new_str), Inr True)))"

text \<open>The loop over the matching items of one replacement pair (normal mode).\<close>

fun copy_items ::
  "'a config_scheme \<Rightarrow> fs \<Rightarrow> path list \<Rightarrow> string \<Rightarrow> string \<Rightarrow> bool \<Rightarrow> fs \<times> (py_error + nat)" where
  "copy_items cfg fs [] old_str new_str dry_run = (fs, Inr 0)"
| "copy_items cfg fs (item # rest) old_str new_str dry_run =
     (case create_renamed_copy cfg fs item old_str new_str dry_run of
        (fs1, Inl e) \<Rightarrow> (fs1, Inl e)
      | (fs1, Inr created) \<Rightarrow>
          (case copy_items cfg fs1 rest old_str new_str dry_run of
             (fs2, Inl e) \<Rightarrow> (fs2, Inl e)
           | (fs2, Inr n) \<Rightarrow> (fs2, Inr ((if created then 1 else 0) + n))))"

text \<open>The loop over the replacement pairs: \<open>items_copied\<close> of \<open>process_repository\<close>.\<close>

fun copy_replacements ::
  "'a config_scheme \<Rightarrow> fs \<Rightarrow> path \<Rightarrow> (string \<times> string) list \<Rightarrow> bool \<Rightarrow> fs \<times> (py_error + nat)" where
  "copy_replacements cfg fs repo_dir [] dry_run = (fs, Inr 0)"
| "copy_replacements cfg fs repo_dir ((old_str, new_str) # rest) dry_run =
     (case copy_items cfg fs (find_items_with_pattern cfg fs repo_dir old_str) old_str new_str dry_run of
        (fs1, Inl e) \<Rightarrow> (fs1, Inl e)
      | (fs1, Inr n) \<Rightarrow>
          (case copy_replacements cfg fs1 repo_dir rest dry_run of
             (fs2, Inl e) \<Rightarrow> (fs2, Inl e)
           | (fs2, Inr m) \<Rightarrow> (fs2, Inr (n + m))))"

text \<open>
  One matching item in fix mode: the new filesystem and what the item adds to
  \<open>items_fixed\<close>.
\<close>

definition fix_item ::
  "'a config_scheme \<Rightarrow> fs \<Rightarrow> path \<Rightarrow> string \<Rightarrow> string \<Rightarrow> bool \<Rightarrow> fs \<times> nat" where
  "fix_item cfg fs item old_str new_str dry_run =
     (if is_dir fs item then
        (if dry_run then (fs, 1)
         else case replace_content_in_directory cfg fs item old_str new_str of
           (fs1, count) \<Rightarrow> (fs1, if count > 0 then 1 else 0))
      else
        (if dry_run then
           (fs, case read_text fs item of
                  Inl e \<Rightarrow> 0
                | Inr content \<Rightarrow> if contains old_str content then 1 else 0)
         else case replace_content_in_file cfg fs item old_str new_str of
           (fs1, changed) \<Rightarrow> (fs1, if changed then 1 else 0)))"

fun fix_items ::
  "'a config_scheme \<Rightarrow> fs \<Rightarrow> path list \<Rightarrow> string \<Rightarrow> string \<Rightarrow> bool \<Rightarrow> fs \<times> nat" where
  "fix_items cfg fs [] old_str new_str dry_run = (fs, 0)"
| "fix_items cfg fs (item # rest) old_str new_str dry_run =
     (case fix_item cfg fs item old_str new_str dry_run of
        (fs1, k) \<Rightarrow>
          (case fix_items cfg fs1 rest old_str new_str dry_run of
             (fs2, n) \<Rightarrow> (fs2, k + n)))"

text \<open>The loop over the pairs in fix mode, which searches for the new string.\<close>

fun fix_replacements ::
  "'a config_scheme \<Rightarrow> fs \<Rightarrow> path \<Rightarrow> (string \<times> string) list \<Rightarrow> bool \<Rightarrow> fs \<times> nat" where
  "fix_replacements cfg fs repo_dir [] dry_run = (fs, 0)"
| "fix_replacements cfg fs repo_dir ((old_str, new_str) # rest) dry_run =
     (case fix_items cfg fs (find_items_with_pattern cfg fs repo_dir new_str) old_str new_str dry_run of
        (fs1, n) \<Rightarrow>
          (case fix_replacements cfg fs1 repo_dir rest dry_run of
             (fs2, m) \<Rightarrow> (fs2, n + m)))"

section \<open>The orchestrator\<close>

text \<open>
  The settings \<open>process_repository\<close> and \<open>run\<close> read beyond those of the engine.
\<close>

record run_config = config +
  work_dir :: path
  base_branch :: string
  branch_name :: string
  replacements :: "(string \<times> string) list"
  fix_mode :: bool

text \<open>
  The \<open>git\<close> binary is an external collaborator. \<open>git_clone url dir k\<close> is the \<open>k\<close>-th
  attempt of \<open>git clone\<close>: the filesystem with the clone, or the exception of
  \<open>run_command\<close>. The other three stand for \<open>checkout_base_branch\<close>,
  \<open>create_or_checkout_branch\<close> and \<open>git_add_commit_push\<close>, which consist of \<open>git\<close> calls
  only and whose results their callers drop. Console and log output is not modelled.
\<close>

record gateway =
  git_clone :: "string \<Rightarrow> path \<Rightarrow> nat \<Rightarrow> fs \<Rightarrow> py_error + fs"
  checkout_base_branch :: "path \<Rightarrow> string \<Rightarrow> fs \<Rightarrow> fs"
  create_or_checkout_branch :: "path \<Rightarrow> string \<Rightarrow> fs \<Rightarrow> fs"
  git_add_commit_push :: "path \<Rightarrow> fs \<Rightarrow> fs"

definition max_retries :: nat where
  "max_retries = 3"

text \<open>
  The retry loop of \<open>clone_repository\<close>: \<open>retry\<close> is the loop variable, the fourth
  argument the number of iterations left.
\<close>

fun clone_loop ::
  "gateway \<Rightarrow> string \<Rightarrow> path \<Rightarrow> nat \<Rightarrow> nat \<Rightarrow> fs \<Rightarrow> fs \<times> (py_error + bool)" where
  "clone_loop gw url target_dir retry 0 fs = (fs, Inr False)"
| "clone_loop gw url target_dir retry (Suc left) fs =
     (case git_clone gw url target_dir retry fs of
        Inr fs1 \<Rightarrow> (fs1, Inr True)
      | Inl e \<Rightarrow>
          if e = CalledProcessError then
            (if retry < max_retries - 1 then clone_loop gw url target_dir (retry + 1) left fs
             else (fs, Inr False))
          else (fs, Inl e))"

definition clone_repository ::
  "gateway \<Rightarrow> fs \<Rightarrow> string \<Rightarrow> path \<Rightarrow> fs \<times> (py_error + bool)" where
  "clone_repository gw fs url target_dir =
     (if path_exists fs target_dir then (fs, Inr True)
      else clone_loop gw url target_dir 0 max_retries fs)"

definition process_repository ::
  "'a run_config_scheme \<Rightarrow> gateway \<Rightarrow> fs \<Rightarrow> string \<Rightarrow> bool \<Rightarrow> bool \<Rightarrow> fs \<times> (py_error + int)" where
  "process_repository rc gw fs repo_input dry_run push =
     (let repo_url = construct_repo_url rc repo_input;
          repo_name = get_repo_name repo_input;
          repo_dir = joinpath (work_dir rc) repo_name
      in case clone_repository gw fs repo_url repo_dir of
           (fs1, Inl e) \<Rightarrow> (fs1, Inl e)
         | (fs1, Inr cloned) \<Rightarrow>
             if \<not> cloned then (fs1, Inr 0)
             else
               let fs2 = (if base_branch rc \<noteq> []
                          then checkout_base_branch gw repo_dir (base_branch rc) fs1 else fs1);
                   fs3 = (if branch_name rc \<noteq> []
                          then create_or_checkout_branch gw repo_dir (branch_name rc) fs2 else fs2)
               in case copy_replacements rc fs3 repo_dir (replacements rc) dry_run of
                    (fs4, Inl e) \<Rightarrow> (fs4, Inl e)
                  | (fs4, Inr items_copied) \<Rightarrow>
                      (if push \<and> \<not> dry_run \<and> items_copied > 0
                       then git_add_commit_push gw repo_dir fs4 else fs4,
                       Inr (int items_copied)))"

definition process_repository_fix_mode ::
  "'a run_config_scheme \<Rightarrow> gateway \<Rightarrow> fs \<Rightarrow> string \<Rightarrow> bool \<Rightarrow> bool \<Rightarrow> fs \<times> (py_error + int)" where
  "process_repository_fix_mode rc gw fs repo_input dry_run push =
     (let repo_url = construct_repo_url rc repo_input;
          repo_name = get_repo_name repo_input;
          repo_dir = joinpath (work_dir rc) repo_name
      in case clone_repository gw fs repo_url repo_dir of
           (fs1, Inl e) \<Rightarrow> (fs1, Inl e)
         | (fs1, Inr cloned) \<Rightarrow>
             if \<not> cloned then (fs1, Inr 0)
             else
               let fs2 = (if base_branch rc \<noteq> []
                          then checkout_base_branch gw repo_dir (base_branch rc) fs1 else fs1);
                   fs3 = (if branch_name rc \<noteq> []
                          then create_or_checkout_branch gw repo_dir (branch_name rc) fs2 else fs2)
               in case fix_replacements rc fs3 repo_dir (replacements rc) dry_run of
                    (fs4, items_fixed) \<Rightarrow>
                      (if push \<and> \<not> dry_run \<and> items_fixed > 0
                       then git_add_commit_push gw repo_dir fs4 else fs4,
                       Inr (int items_fixed)))"

text \<open>\<open>line.strip()\<close> on ASCII text.\<close>

definition is_space :: "char \<Rightarrow> bool" where
  "is_space c =
     (c \<in> {CHR 0x20, CHR 0x09, CHR 0x0A, CHR 0x0B, CHR 0x0C, CHR 0x0D,
            CHR 0x1C, CHR 0x1D, CHR 0x1E, CHR 0x1F})"

definition strip :: "string \<Rightarrow> string" where
  "strip s = rev (dropWhile is_space (rev (dropWhile is_space s)))"

text \<open>The three counters of \<open>run\<close>.\<close>

record tally =
  total_items :: int
  successful_repos :: nat
  total_repos :: nat

text \<open>The loop of \<open>run\<close> over the lines of the repository list.\<close>

fun run_lines ::
  "'a run_config_scheme \<Rightarrow> gateway \<Rightarrow> fs \<Rightarrow> string list \<Rightarrow> bool \<Rightarrow> bool \<Rightarrow> tally
     \<Rightarrow> fs \<times> (py_error + tally)" where
  "run_lines rc gw fs [] dry_run push t = (fs, Inr t)"
| "run_lines rc gw fs (l # ls) dry_run push t =
     (let line = strip l in
      if line = [] \<or> prefix ''#'' line then run_lines rc gw fs ls dry_run push t
      else
        case (if fix_mode rc then process_repository_fix_mode rc gw fs line dry_run push
              else process_repository rc gw fs line dry_run push) of
          (fs1, Inl e) \<Rightarrow> (fs1, Inl e)
        | (fs1, Inr items) \<Rightarrow>
            run_lines rc gw fs1 ls dry_run push
              (if items \<ge> 0
               then t\<lparr> total_repos := total_repos t + 1,
                       successful_repos := successful_repos t + 1,
                       total_items := total_items t + items \<rparr>
               else t\<lparr> total_repos := total_repos t + 1 \<rparr>))"

text \<open>
  \<open>work_dir.mkdir(parents=True, exist_ok=True)\<close>: nothing to do for a directory that
  exists, otherwise every missing directory on the way is made.
\<close>

definition mkdir_parents :: "fs \<Rightarrow> path \<Rightarrow> fs \<times> (py_error + unit)" where
  "mkdir_parents fs p =
     (if is_dir fs p then (fs, Inr ())
      else case makedirs fs p of
        (fs1, Inl e) \<Rightarrow> (fs1, Inl e)
      | (fs1, Inr q) \<Rightarrow> (fs1, Inr ()))"

text \<open>
  \<open>run\<close>: \<open>repo_list\<close> holds the lines of the repository list file, \<open>None\<close> when the file
  does not exist, and \<open>fix_mode\<close> of the configuration is the mode after the command
  line has overridden it. The result is the tally of the summary, when one is printed,
  and the exit code.
\<close>

definition run ::
  "'a run_config_scheme \<Rightarrow> gateway \<Rightarrow> fs \<Rightarrow> string list option \<Rightarrow> bool \<Rightarrow> bool
     \<Rightarrow> fs \<times> (py_error + (tally option \<times> int))" where
  "run rc gw fs repo_list dry_run push =
     (case repo_list of
        None \<Rightarrow> (fs, Inr (None, 1))
      | Some ls \<Rightarrow>
          if replacements rc = [] then (fs, Inr (None, 1))
          else
            case mkdir_parents fs (work_dir rc) of
              (fs0, Inl e) \<Rightarrow> (fs0, Inl e)
            | (fs0, Inr u) \<Rightarrow>
                (case run_lines rc gw fs0 ls dry_run push
                        \<lparr> total_items = 0, successful_repos = 0, total_repos = 0 \<rparr> of
                   (fs1, Inl e) \<Rightarrow> (fs1, Inl e)
                 | (fs1, Inr t) \<Rightarrow>
                     (fs1, Inr (Some t, if successful_repos t = total_repos t then 0 else 1))))"

section \<open>Worked examples\<close>

text \<open>
  A configuration for the worked examples: no authentication, case-sensitive, and a
  \<open>file\<close> utility that prints the path and a classification of the entry.
\<close>

definition path_str :: "path \<Rightarrow> string" where
  "path_str p = concat (map (\<lambda>c. ''/'' @ c) p)"

definition std_file :: "path \<Rightarrow> node option \<Rightarrow> py_error + string" where
  "std_file p n =
     Inr (path_str p @ '': '' @
       (case n of
          None \<Rightarrow> ''cannot open (No such file or directory)''
        | Some Dir \<Rightarrow> ''directory''
        | Some (File c r w) \<Rightarrow>
            if \<not> r then ''regular file, no read permission''
            else if c = [] then ''empty''
            else if CHR 0x00 \<in> set c then ''data''
            else ''ASCII text''))"

definition example_config :: config where
  "example_config =
     \<lparr> git_base_url = ''https://git.example.com/org'', git_auth_method = ''none'',
       git_username = [], git_auth_token = [], case_sensitive = True, file_cmd = std_file \<rparr>"

definition ci_config :: config where
  "ci_config = example_config \<lparr> case_sensitive := False \<rparr>"

definition locked_fs :: fs where
  "locked_fs =
     [([''r''], Dir),
      ([''r'', ''locked.cfg''], File ''env=dev'' True False),
      ([''r'', ''secret.cfg''], File ''env=dev'' False True),
      ([''r'', ''notes.md''], File ''hello'' True True)]"

definition broken_file_config :: config where
  "broken_file_config = example_config \<lparr> file_cmd := (\<lambda>p n. Inl FileNotFoundError) \<rparr>"

definition fix_fs :: fs where
  "fix_fs =
     [([''r''], Dir),
      ([''r'', ''prod-service.yaml''], File ''dev endpoint'' True True),
      ([''r'', ''prod''], Dir),
      ([''r'', ''prod'', ''readme.md''], File ''production'' True True)]"

definition example_run_config :: run_config where
  "example_run_config =
     \<lparr> git_base_url = ''https://git.example.com/org'', git_auth_method = ''none'',
       git_username = [], git_auth_token = [], case_sensitive = True, file_cmd = std_file,
       work_dir = [''repos_temp''], base_branch = [], branch_name = [],
       replacements = [(''dev'', ''prod'')], fix_mode = False \<rparr>"

definition failing_gateway :: gateway where
  "failing_gateway =
     \<lparr> git_clone = (\<lambda>url d k fs. Inl CalledProcessError),
       checkout_base_branch = (\<lambda>d b fs. fs),
       create_or_checkout_branch = (\<lambda>d b fs. fs),
       git_add_commit_push = (\<lambda>d fs. fs) \<rparr>"

definition conflict_fs :: fs where
  "conflict_fs =
     [([''r''], Dir),
      ([''r'', ''dev.txt''], File ''dev one'' True True),
      ([''r'', ''prod.txt''], File ''keep me'' True True)]"

definition scenario_fs :: fs where
  "scenario_fs =
     [([''r''], Dir),
      ([''r'', ''dev''], Dir),
      ([''r'', ''dev'', ''readme.md''], File ''dev mode'' True True)]"

definition twins_fs :: fs where
  "twins_fs =
     [([''r''], Dir),
      ([''r'', ''Dev.txt''], File ''one'' True True),
      ([''r'', ''DEV.txt''], File ''two'' True True)]"

section \<open>Predicates of the specification\<close>

text \<open>
  The spec's words "old is present in the content under the active case rule":
  \<open>old\<close> is a contiguous part of the content, after lowering both when the case
  rule is off.
\<close>

definition present_in :: "bool \<Rightarrow> string \<Rightarrow> string \<Rightarrow> bool" where
  "present_in cs old s = (if cs then sublist old s else sublist (lower old) (lower s))"

text \<open>
  \<open>content_step cs olds W fs fs'\<close>: \<open>fs'\<close> has the entries of \<open>fs\<close> at the same paths, and
  an entry that differs is a writable file at a path of \<open>W\<close> whose text in \<open>fs\<close> holds
  one of \<open>olds\<close>; only its text differs.
\<close>

definition content_step :: "bool \<Rightarrow> string set \<Rightarrow> path set \<Rightarrow> fs \<Rightarrow> fs \<Rightarrow> bool" where
  "content_step cs olds W fs fs' =
     (map fst fs' = map fst fs
      \<and> (\<forall>k. map_of fs' k = map_of fs k
            \<or> (k \<in> W \<and> (\<exists>c r c' old. map_of fs k = Some (File c r True)
                   \<and> map_of fs' k = Some (File c' r True)
                   \<and> old \<in> olds \<and> present_in cs old c))))"

text \<open>
  The spec's words for the case-insensitive substitution: every match of \<open>old\<close>,
  whatever its case, is replaced by \<open>new\<close> as it is configured.
\<close>

definition ci_replace :: "string \<Rightarrow> string \<Rightarrow> string \<Rightarrow> string" where
  "ci_replace old new s =
     (if old = [] then new @ concat (map (\<lambda>c. c # new) s) else sub_scan old (map Lit new) s)"

text \<open>What \<open>wf_fs\<close> asks of the path of an entry.\<close>

definition entry_ok :: "fs \<Rightarrow> path \<Rightarrow> bool" where
  "entry_ok fs k = (k \<noteq> [] \<and> ''..'' \<notin> set k \<and> dir_at fs (butlast k))"

section \<open>Facts about the string operations\<close>

lemma rstrip_decompose:
  "\<exists>tail. s = rstrip chars s @ tail \<and> set tail \<subseteq> set chars"
proof -
  let ?P = "\<lambda>c. c \<in> set chars"
  have "rev s = takeWhile ?P (rev s) @ dropWhile ?P (rev s)"
    by simp
  then have "s = rev (dropWhile ?P (rev s)) @ rev (takeWhile ?P (rev s))"
    by (metis rev_append rev_rev_ident)
  moreover have "set (rev (takeWhile ?P (rev s))) \<subseteq> set chars"
    by (auto dest: set_takeWhileD)
  ultimately show ?thesis
    unfolding rstrip_def by blast
qed

lemma rstrip_last:
  "rstrip chars s \<noteq> [] \<Longrightarrow> last (rstrip chars s) \<notin> set chars"
proof -
  assume ne: "rstrip chars s \<noteq> []"
  let ?d = "dropWhile (\<lambda>c. c \<in> set chars) (rev s)"
  from ne have d: "?d \<noteq> []" by (simp add: rstrip_def)
  then have "hd ?d \<notin> set chars" by (rule hd_dropWhile)
  moreover have "last (rev ?d) = hd ?d" using d by (simp add: last_rev)
  ultimately show ?thesis by (simp add: rstrip_def)
qed

section \<open>Facts about content substitution\<close>

lemma contains_sublist: "contains sub s = sublist sub s"
  by (induction s) (auto simp: sublist_Cons_right)

lemma re_search_sublist: "re_search_ignorecase old s = sublist (lower old) (lower s)"
  by (induction s) (auto simp: sublist_Cons_right ci_prefix_def lower_def)

lemma body_cases:
  assumes "replace_content_body cfg fs p old new = Inr (fs', b)"
  shows "(fs' = fs \<and> \<not> b) \<or>
         (b \<and> (\<exists>q c r c'. canon fs p = Some q \<and> q \<noteq> [] \<and> map_of fs q = Some (File c r True)
                \<and> present_in (case_sensitive cfg) old c
                \<and> fs' = AList.update q (File c' r True) fs))"
  using assms
  unfolding replace_content_body_def read_text_def write_text_def lookup_def present_in_def
  by (auto simp: contains_sublist re_search_sublist
           split: sum.splits option.splits node.splits if_splits)

lemma rcf_cases:
  assumes "replace_content_in_file cfg fs p old new = (fs', b)"
  shows "(fs' = fs \<and> \<not> b) \<or>
         (b \<and> (\<exists>q c r c'. canon fs p = Some q \<and> q \<noteq> [] \<and> map_of fs q = Some (File c r True)
                \<and> present_in (case_sensitive cfg) old c
                \<and> fs' = AList.update q (File c' r True) fs))"
proof (cases "replace_content_body cfg fs p old new")
  case (Inl e)
  with assms show ?thesis by (simp add: replace_content_in_file_def)
next
  case (Inr r)
  with assms have "replace_content_body cfg fs p old new = Inr (fs', b)"
    by (simp add: replace_content_in_file_def)
  then show ?thesis by (rule body_cases)
qed

lemma rcf_error:
  "replace_content_body cfg fs p old new = Inl e \<Longrightarrow>
     replace_content_in_file cfg fs p old new = (fs, False)"
  by (simp add: replace_content_in_file_def)

lemma rcf_absent:
  assumes "\<not> present_in (case_sensitive cfg) old c" and "lookup fs p = Some (File c r w)"
  shows "replace_content_in_file cfg fs p old new = (fs, False)"
  using assms
  unfolding replace_content_in_file_def replace_content_body_def read_text_def present_in_def
  by (auto simp: contains_sublist re_search_sublist split: sum.splits if_splits)


lemma content_step_refl: "content_step cs olds W fs fs"
  by (simp add: content_step_def)

lemma content_step_mono:
  "content_step cs olds W fs fs' \<Longrightarrow> W \<subseteq> W' \<Longrightarrow> olds \<subseteq> olds' \<Longrightarrow> content_step cs olds' W' fs fs'"
  unfolding content_step_def by blast

lemma content_step_trans:
  assumes "content_step cs olds W fs fs1" and "content_step cs olds W fs1 fs2"
  shows "content_step cs olds W fs fs2"
  unfolding content_step_def
proof (intro conjI allI)
  show "map fst fs2 = map fst fs"
    using assms by (simp add: content_step_def)
  fix k
  from assms(1) have a: "map_of fs1 k = map_of fs k
            \<or> (k \<in> W \<and> (\<exists>c r c' old. map_of fs k = Some (File c r True)
                   \<and> map_of fs1 k = Some (File c' r True)
                   \<and> old \<in> olds \<and> present_in cs old c))"
    unfolding content_step_def by blast
  from assms(2) have b: "map_of fs2 k = map_of fs1 k
            \<or> (k \<in> W \<and> (\<exists>c r c' old. map_of fs1 k = Some (File c r True)
                   \<and> map_of fs2 k = Some (File c' r True)
                   \<and> old \<in> olds \<and> present_in cs old c))"
    unfolding content_step_def by blast
  from a b show "map_of fs2 k = map_of fs k
            \<or> (k \<in> W \<and> (\<exists>c r c' old. map_of fs k = Some (File c r True)
                   \<and> map_of fs2 k = Some (File c' r True)
                   \<and> old \<in> olds \<and> present_in cs old c))"
    by (elim disjE conjE exE) auto
qed

lemma content_step_dir_at:
  assumes "content_step cs olds W fs fs'"
  shows "dir_at fs' k = dir_at fs k"
proof -
  from assms have "map_of fs' k = map_of fs k
            \<or> (\<exists>c r c'. map_of fs k = Some (File c r True) \<and> map_of fs' k = Some (File c' r True))"
    unfolding content_step_def by blast
  then show ?thesis by (auto simp: dir_at_def)
qed

lemma walk_cong:
  "(\<And>k. dir_at fs' k = dir_at fs k) \<Longrightarrow> walk fs' cur p = walk fs cur p"
  by (induction p arbitrary: cur) simp_all

lemma content_step_canon:
  "content_step cs olds W fs fs' \<Longrightarrow> canon fs' p = canon fs p"
  unfolding canon_def by (rule walk_cong) (rule content_step_dir_at)

lemma content_step_lookup_kind:
  assumes "content_step cs olds W fs fs'"
  shows "is_file fs' p = is_file fs p" and "is_dir fs' p = is_dir fs p"
proof -
  have c: "canon fs' p = canon fs p" using assms by (rule content_step_canon)
  have k: "map_of fs' k = map_of fs k
            \<or> (\<exists>c r c'. map_of fs k = Some (File c r True) \<and> map_of fs' k = Some (File c' r True))"
    for k
    using assms unfolding content_step_def by blast
  show "is_file fs' p = is_file fs p"
  proof (cases "canon fs p")
    case None
    then show ?thesis by (simp add: is_file_def lookup_def c)
  next
    case (Some q)
    with k [of q] show ?thesis
      by (auto simp: is_file_def lookup_def c)
  qed
  show "is_dir fs' p = is_dir fs p"
  proof (cases "canon fs p")
    case None
    then show ?thesis by (simp add: is_dir_def lookup_def c)
  next
    case (Some q)
    with k [of q] show ?thesis
      by (auto simp: is_dir_def lookup_def c)
  qed
qed

lemma rcf_content_step:
  assumes "replace_content_in_file cfg fs p old new = (fs', b)"
  shows "content_step (case_sensitive cfg) {old} {k. canon fs p = Some k} fs fs'"
proof -
  from rcf_cases [OF assms] show ?thesis
  proof (elim disjE conjE exE)
    assume "fs' = fs"
    then show ?thesis by (simp add: content_step_refl)
  next
    fix q c r c'
    assume q: "canon fs p = Some q" "map_of fs q = Some (File c r True)"
      and p: "present_in (case_sensitive cfg) old c"
      and u: "fs' = AList.update q (File c' r True) fs"
    from q(2) have "q \<in> set (map fst fs)"
      by (force dest: map_of_SomeD)
    then have "map fst fs' = map fst fs"
      unfolding u by (simp add: update_keys)
    moreover have "\<And>k. k \<noteq> q \<Longrightarrow> map_of fs' k = map_of fs k"
      unfolding u by (simp add: update_conv')
    moreover have "map_of fs' q = Some (File c' r True)"
      unfolding u by (simp add: update_conv')
    ultimately have "map fst fs' = map fst fs"
      and "map_of fs' k = map_of fs k
            \<or> (k \<in> {k. canon fs p = Some k} \<and> (\<exists>c r c' old'. map_of fs k = Some (File c r True)
                   \<and> map_of fs' k = Some (File c' r True)
                   \<and> old' \<in> {old} \<and> present_in (case_sensitive cfg) old' c))" for k
      using q p by (cases "k = q"; simp)+
    then show ?thesis
      unfolding content_step_def by blast
  qed
qed

lemma replace_in_files_content_step:
  "replace_in_files cfg fs ps old new = (fs', n) \<Longrightarrow>
     content_step (case_sensitive cfg) {old} {k. \<exists>p\<in>set ps. canon fs p = Some k} fs fs'"
proof (induction ps arbitrary: fs fs' n)
  case Nil
  then show ?case by (simp add: content_step_refl)
next
  case (Cons p ps)
  let ?W = "{k. \<exists>x\<in>set (p # ps). canon fs x = Some k}"
  show ?case
  proof (cases "is_file fs p \<and> ''.git'' \<notin> set p")
    case False
    with Cons.prems have "replace_in_files cfg fs ps old new = (fs', n)"
      by auto
    from Cons.IH [OF this] show ?thesis
      by (rule content_step_mono) auto
  next
    case True
    obtain fs1 b where r: "replace_content_in_file cfg fs p old new = (fs1, b)"
      by (cases "replace_content_in_file cfg fs p old new")
    obtain fs2 m where l: "replace_in_files cfg fs1 ps old new = (fs2, m)"
      by (cases "replace_in_files cfg fs1 ps old new")
    from Cons.prems True r l have e: "fs' = fs2" by simp
    have s1: "content_step (case_sensitive cfg) {old} {k. canon fs p = Some k} fs fs1"
      using r by (rule rcf_content_step)
    have s2: "content_step (case_sensitive cfg) {old} {k. \<exists>x\<in>set ps. canon fs1 x = Some k} fs1 fs2"
      using l by (rule Cons.IH)
    have c: "\<And>x. canon fs1 x = canon fs x"
      using s1 by (rule content_step_canon)
    have "content_step (case_sensitive cfg) {old} ?W fs fs1"
      using s1 by (rule content_step_mono) auto
    moreover have "content_step (case_sensitive cfg) {old} ?W fs1 fs2"
      using s2 unfolding c by (rule content_step_mono) auto
    ultimately show ?thesis
      unfolding e by (rule content_step_trans)
  qed
qed

section \<open>Facts about the case-insensitive substitution\<close>

text \<open>
  A replacement without a backslash is a template of literals: \<open>pattern.sub\<close> then
  inserts it as it is, at every match.
\<close>

lemma parse_template_plain:
  "backslash \<notin> set new \<Longrightarrow> parse_template new = Inr (map Lit new)"
  by (induction new) (auto simp: emit_def)

lemma expand_plain: "expand (map Lit new) m = new"
  by (induction new) simp_all


lemma re_sub_plain:
  "backslash \<notin> set new \<Longrightarrow> re_sub_ignorecase old new s = Inr (ci_replace old new s)"
  by (simp add: re_sub_ignorecase_def ci_replace_def parse_template_plain expand_plain)

lemma ci_example:
  "re_sub_ignorecase ''Dev'' ''Prod'' ''DEV_CONFIG dev_value'' = Inr ''Prod_CONFIG Prod_value''"
  by code_simp

section \<open>Facts about the fix loops\<close>

lemma fix_item_content_step:
  assumes "fix_item cfg fs item old new False = (fs', k)"
  shows "content_step (case_sensitive cfg) {old} UNIV fs fs'"
proof (cases "is_dir fs item")
  case True
  obtain fs1 n where r: "replace_in_files cfg fs (rglob fs item) old new = (fs1, n)"
    by (cases "replace_in_files cfg fs (rglob fs item) old new")
  with assms True have "fs' = fs1"
    by (simp add: fix_item_def replace_content_in_directory_def)
  with replace_in_files_content_step [OF r] show ?thesis
    by (auto intro: content_step_mono)
next
  case False
  obtain fs1 b where r: "replace_content_in_file cfg fs item old new = (fs1, b)"
    by (cases "replace_content_in_file cfg fs item old new")
  with assms False have "fs' = fs1"
    by (simp add: fix_item_def)
  with rcf_content_step [OF r] show ?thesis
    by (auto intro: content_step_mono)
qed

lemma fix_items_content_step:
  "fix_items cfg fs items old new False = (fs', n) \<Longrightarrow>
     content_step (case_sensitive cfg) {old} UNIV fs fs'"
proof (induction items arbitrary: fs fs' n)
  case Nil
  then show ?case by (simp add: content_step_refl)
next
  case (Cons item items)
  obtain fs1 k where a: "fix_item cfg fs item old new False = (fs1, k)"
    by (cases "fix_item cfg fs item old new False")
  obtain fs2 m where b: "fix_items cfg fs1 items old new False = (fs2, m)"
    by (cases "fix_items cfg fs1 items old new False")
  from Cons.prems a b have "fs' = fs2" by simp
  with fix_item_content_step [OF a] Cons.IH [OF b] show ?case
    by (auto intro: content_step_trans)
qed

lemma fix_replacements_content_step:
  "fix_replacements cfg fs repo_dir pairs False = (fs', n) \<Longrightarrow>
     content_step (case_sensitive cfg) (fst ` set pairs) UNIV fs fs'"
proof (induction pairs arbitrary: fs fs' n)
  case Nil
  then show ?case by (simp add: content_step_refl)
next
  case (Cons pr pairs)
  obtain old new where pr: "pr = (old, new)" by (cases pr)
  let ?items = "find_items_with_pattern cfg fs repo_dir new"
  obtain fs1 k where a: "fix_items cfg fs ?items old new False = (fs1, k)"
    by (cases "fix_items cfg fs ?items old new False")
  obtain fs2 m where b: "fix_replacements cfg fs1 repo_dir pairs False = (fs2, m)"
    by (cases "fix_replacements cfg fs1 repo_dir pairs False")
  from Cons.prems pr a b have e: "fs' = fs2" by simp
  have "content_step (case_sensitive cfg) (fst ` set (pr # pairs)) UNIV fs fs1"
    using fix_items_content_step [OF a] by (rule content_step_mono) (simp_all add: pr)
  moreover have "content_step (case_sensitive cfg) (fst ` set (pr # pairs)) UNIV fs1 fs2"
    using Cons.IH [OF b] by (rule content_step_mono) auto
  ultimately show ?case unfolding e by (rule content_step_trans)
qed

section \<open>Facts about the run summary\<close>

text \<open>
  Both \<open>process_repository\<close> and \<open>process_repository_fix_mode\<close> return a count that is
  never negative, so every repository that returns is tallied as successful and a
  run that prints its summary exits with 0.
\<close>

lemma process_repository_nonneg:
  "process_repository rc gw fs repo_input dry_run push = (fs', Inr items) \<Longrightarrow> 0 \<le> items"
  unfolding process_repository_def Let_def
  by (auto split: prod.splits sum.splits if_splits)

lemma process_repository_fix_mode_nonneg:
  "process_repository_fix_mode rc gw fs repo_input dry_run push = (fs', Inr items) \<Longrightarrow> 0 \<le> items"
  unfolding process_repository_fix_mode_def Let_def
  by (auto split: prod.splits sum.splits if_splits)

lemma run_lines_all_successful:
  "run_lines rc gw fs ls dry_run push t = (fs', Inr t') \<Longrightarrow>
     successful_repos t = total_repos t \<Longrightarrow> successful_repos t' = total_repos t'"
proof (induction ls arbitrary: fs t)
  case Nil
  then show ?case by simp
next
  case (Cons l ls)
  show ?case
  proof (cases "strip l = [] \<or> prefix ''#'' (strip l)")
    case True
    with Cons.prems(1) have "run_lines rc gw fs ls dry_run push t = (fs', Inr t')"
      by (simp add: Let_def)
    from Cons.IH [OF this Cons.prems(2)] show ?thesis .
  next
    case False
    let ?r = "if fix_mode rc then process_repository_fix_mode rc gw fs (strip l) dry_run push
              else process_repository rc gw fs (strip l) dry_run push"
    obtain fs1 res where r: "?r = (fs1, res)" by (cases ?r)
    show ?thesis
    proof (cases res)
      case (Inl e)
      with Cons.prems(1) False r show ?thesis by (simp add: Let_def)
    next
      case (Inr items)
      have "0 \<le> items"
        using r Inr process_repository_nonneg process_repository_fix_mode_nonneg
        by (auto split: if_splits)
      with Cons.prems(1) False r Inr
      have "run_lines rc gw fs1 ls dry_run push
              (t\<lparr> total_repos := total_repos t + 1,
                  successful_repos := successful_repos t + 1,
                  total_items := total_items t + items \<rparr>) = (fs', Inr t')"
        by (simp add: Let_def)
      from Cons.IH [OF this] Cons.prems(2) show ?thesis by simp
    qed
  qed
qed

lemma run_never_reports_failure:
  "run rc gw fs (Some ls) dry_run push = (fs', Inr (Some t, code)) \<Longrightarrow>
     successful_repos t = total_repos t \<and> code = 0"
  unfolding run_def
  by (auto split: if_splits prod.splits sum.splits dest!: run_lines_all_successful)

section \<open>Facts about paths and directory creation\<close>

text \<open>
  Entries are only ever appended, and a lookup finds the first entry of a path: what
  stands in the filesystem stays when entries are added.
\<close>

lemma map_of_append_keep:
  "map_of fs k = Some n \<Longrightarrow> map_of (fs @ e) k = Some n"
  by (simp add: map_add_Some_iff)

lemma map_of_append_None:
  "map_of (fs @ e) k = None \<Longrightarrow> map_of fs k = None"
  by simp

lemma dir_at_append: "dir_at fs q \<Longrightarrow> dir_at (fs @ e) q"
  by (auto simp: dir_at_def map_add_Some_iff)

lemma walk_append_fs:
  "walk fs cur p = Some q \<Longrightarrow> walk (fs @ e) cur p = Some q"
  by (induction p arbitrary: cur) (auto simp: dir_at_append split: if_splits)

lemma walk_append_path:
  "walk fs cur (a @ b) = (case walk fs cur a of None \<Rightarrow> None | Some c \<Rightarrow> walk fs c b)"
proof (induction a arbitrary: cur)
  case Nil
  show ?case by simp
next
  case (Cons x a)
  show ?case by (simp add: Cons.IH)
qed

lemma walk_nodots:
  "''..'' \<notin> set p \<Longrightarrow> walk fs cur p = Some w \<Longrightarrow> w = cur @ p"
proof (induction p arbitrary: cur)
  case Nil
  then show ?case by simp
next
  case (Cons a p)
  from Cons.prems have "walk fs (cur @ [a]) p = Some w" and "''..'' \<notin> set p"
    by (auto split: if_splits)
  from Cons.IH [OF this(2,1)] show ?case by simp
qed

lemma makedirs_walk_extends:
  "makedirs_walk fs cur p = (fs1, r) \<Longrightarrow> \<exists>e. fs1 = fs @ e"
proof (induction p arbitrary: fs cur)
  case Nil
  then show ?case by simp
next
  case (Cons c cs)
  let ?nxt = "if c = ''..'' then butlast cur else cur @ [c]"
  show ?case
  proof (cases "dir_at fs ?nxt")
    case True
    with Cons.prems show ?thesis
      by (cases "cs = []") (auto simp: Let_def dest: Cons.IH)
  next
    case False
    show ?thesis
    proof (cases "map_of fs ?nxt = None")
      case True
      with False Cons.prems
      have "makedirs_walk (fs @ [(?nxt, Dir)]) ?nxt cs = (fs1, r)"
        by (simp add: Let_def)
      from Cons.IH [OF this] show ?thesis by auto
    next
      case n: False
      with False Cons.prems show ?thesis by (simp add: Let_def)
    qed
  qed
qed

lemma makedirs_walk_result:
  "makedirs_walk fs cur p = (fs1, Inr q) \<Longrightarrow> p \<noteq> [] \<Longrightarrow> dir_at fs cur \<Longrightarrow>
     walk fs1 cur p = Some q \<and> map_of fs q = None \<and> q \<noteq> []"
proof (induction p arbitrary: fs cur)
  case Nil
  then show ?case by simp
next
  case (Cons c cs)
  let ?nxt = "if c = ''..'' then butlast cur else cur @ [c]"
  from makedirs_walk_extends [OF Cons.prems(1)] obtain e where e: "fs1 = fs @ e" by blast
  have dc: "dir_at fs1 cur"
    unfolding e using Cons.prems(3) by (rule dir_at_append)
  show ?case
  proof (cases "dir_at fs ?nxt")
    case True
    with Cons.prems(1) have cs: "cs \<noteq> []" and m: "makedirs_walk fs ?nxt cs = (fs1, Inr q)"
      by (auto simp: Let_def split: if_splits)
    from Cons.IH [OF m cs True] dc show ?thesis by simp
  next
    case False
    with Cons.prems(1) have none: "map_of fs ?nxt = None"
      and m: "makedirs_walk (fs @ [(?nxt, Dir)]) ?nxt cs = (fs1, Inr q)"
      by (auto simp: Let_def split: if_splits)
    from False have ne: "?nxt \<noteq> []" by (auto simp: dir_at_def)
    have d: "dir_at (fs @ [(?nxt, Dir)]) ?nxt"
      using none by (auto simp: dir_at_def map_add_def)
    show ?thesis
    proof (cases "cs = []")
      case True
      with m have "fs1 = fs @ [(?nxt, Dir)]" and "q = ?nxt" by auto
      with none ne dc True show ?thesis by simp
    next
      case cs: False
      from Cons.IH [OF m cs d] have "walk fs1 ?nxt cs = Some q"
        and "map_of (fs @ [(?nxt, Dir)]) q = None" and "q \<noteq> []"
        by blast+
      with dc show ?thesis by (auto dest: map_of_append_None)
    qed
  qed
qed

lemma makedirs_walk_nodots:
  "makedirs_walk fs cur p = (fs @ e, r) \<Longrightarrow> ''..'' \<notin> set cur \<Longrightarrow>
     (\<forall>k\<in>fst ` set e. ''..'' \<notin> set k) \<and> (\<forall>q. r = Inr q \<longrightarrow> ''..'' \<notin> set q)"
proof (induction p arbitrary: fs cur e)
  case Nil
  then show ?case by auto
next
  case (Cons c cs)
  let ?nxt = "if c = ''..'' then butlast cur else cur @ [c]"
  have nd: "''..'' \<notin> set ?nxt"
    using Cons.prems(2) by (auto dest: in_set_butlastD)
  show ?case
  proof (cases "dir_at fs ?nxt")
    case True
    show ?thesis
    proof (cases "cs = []")
      case True
      with \<open>dir_at fs ?nxt\<close> Cons.prems(1) show ?thesis by (auto simp: Let_def)
    next
      case False
      with True Cons.prems(1) have "makedirs_walk fs ?nxt cs = (fs @ e, r)"
        by (simp add: Let_def)
      from Cons.IH [OF this nd] show ?thesis .
    qed
  next
    case False
    show ?thesis
    proof (cases "map_of fs ?nxt = None")
      case True
      with False Cons.prems(1)
      have m: "makedirs_walk (fs @ [(?nxt, Dir)]) ?nxt cs = (fs @ e, r)"
        by (simp add: Let_def)
      from makedirs_walk_extends [OF m] obtain e' where "fs @ e = (fs @ [(?nxt, Dir)]) @ e'"
        by blast
      then have e: "e = (?nxt, Dir) # e'" by simp
      from m have "makedirs_walk (fs @ [(?nxt, Dir)]) ?nxt cs = ((fs @ [(?nxt, Dir)]) @ e', r)"
        unfolding e by simp
      from Cons.IH [OF this nd] nd show ?thesis unfolding e by simp
    next
      case n: False
      with False Cons.prems(1) show ?thesis by (auto simp: Let_def)
    qed
  qed
qed

lemma wf_fs_entry:
  "wf_fs fs \<Longrightarrow> map_of fs k = Some n \<Longrightarrow> k \<noteq> [] \<and> ''..'' \<notin> set k \<and> dir_at fs (butlast k)"
  by (auto simp: wf_fs_def list_all_iff dest!: map_of_SomeD)

lemma wf_fs_prefix_dir:
  assumes wf: "wf_fs fs"
  shows "map_of fs (q @ sfx) = Some n \<Longrightarrow> sfx \<noteq> [] \<Longrightarrow> dir_at fs q"
proof (induction sfx arbitrary: n rule: rev_induct)
  case Nil
  then show ?case by simp
next
  case (snoc x sfx)
  from wf_fs_entry [OF wf snoc.prems(1)] have d: "dir_at fs (q @ sfx)"
    by (simp add: butlast_append)
  show ?case
  proof (cases "sfx = []")
    case True
    with d show ?thesis by simp
  next
    case False
    with d have "map_of fs (q @ sfx) = Some Dir" by (simp add: dir_at_def)
    from snoc.IH [OF this False] show ?thesis .
  qed
qed

lemma wf_fs_below_absent:
  assumes "wf_fs fs" and "map_of fs q = None" and "q \<noteq> []" and "strict_prefix q k"
  shows "map_of fs k = None"
proof (rule ccontr)
  assume "map_of fs k \<noteq> None"
  then obtain n where n: "map_of fs k = Some n" by blast
  from assms(4) obtain sfx where k: "k = q @ sfx" and s: "sfx \<noteq> []"
    by (auto simp: strict_prefix_def prefix_def)
  from wf_fs_prefix_dir [OF assms(1) n [unfolded k] s] assms(2,3) show False
    by (simp add: dir_at_def)
qed

section \<open>Facts about the copy\<close>

lemma makedirs_cases:
  assumes "makedirs fs dst = (fs1, res)"
  shows "\<exists>e. fs1 = fs @ e \<and> (\<forall>k\<in>fst ` set e. ''..'' \<notin> set k)
           \<and> (\<forall>q. res = Inr q \<longrightarrow>
                 walk fs1 [] dst = Some q \<and> map_of fs q = None \<and> q \<noteq> [] \<and> ''..'' \<notin> set q)"
proof (cases "dst = []")
  case True
  with assms show ?thesis by (auto simp: makedirs_def)
next
  case False
  with assms have m: "makedirs_walk fs [] dst = (fs1, res)"
    by (simp add: makedirs_def)
  from makedirs_walk_extends [OF m] obtain e where e: "fs1 = fs @ e" by blast
  from makedirs_walk_nodots [OF m [unfolded e]]
  have nd: "(\<forall>k\<in>fst ` set e. ''..'' \<notin> set k) \<and> (\<forall>q. res = Inr q \<longrightarrow> ''..'' \<notin> set q)"
    by simp
  have "walk fs1 [] dst = Some q \<and> map_of fs q = None \<and> q \<noteq> []" if "res = Inr q" for q
    using makedirs_walk_result [OF m [unfolded that] False] by (simp add: dir_at_def)
  with e nd show ?thesis by blast
qed

lemma copytree_cases:
  assumes "copytree fs src dst = (fs2, r)"
  shows "fs2 = fs
       \<or> (\<exists>s fs1 res. canon fs src = Some s \<and> makedirs fs dst = (fs1, res)
             \<and> (fs2 = fs1 \<and> (r = Inl RecursionError \<or> (\<exists>e. res = Inl e))
                \<or> (\<exists>q. res = Inr q \<and> r \<noteq> Inl RecursionError
                      \<and> fs2 = fs1 @ map (\<lambda>(k, n). (q @ drop (length s) k, n))
                                     (filter (\<lambda>(k, n). copyable n)
                                        (filter (\<lambda>(k, n). strict_prefix s k) fs)))))"
  using assms unfolding copytree_def Let_def
  by (auto split: option.splits if_splits prod.splits sum.splits)

lemma copytree_extends:
  assumes "copytree fs src dst = (fs2, r)"
  shows "\<exists>e. fs2 = fs @ e"
proof -
  from copytree_cases [OF assms] show ?thesis
  proof (elim disjE exE conjE)
    assume "fs2 = fs"
    then show ?thesis by simp
  next
    fix s fs1 res
    assume "makedirs fs dst = (fs1, res)" "fs2 = fs1"
    with makedirs_cases show ?thesis by blast
  next
    fix s fs1 res
    assume "makedirs fs dst = (fs1, res)" "fs2 = fs1"
    with makedirs_cases show ?thesis by blast
  next
    fix s fs1 res q
    assume m: "makedirs fs dst = (fs1, res)"
      and f: "fs2 = fs1 @ map (\<lambda>(k, n). (q @ drop (length s) k, n))
                                     (filter (\<lambda>(k, n). copyable n)
                                        (filter (\<lambda>(k, n). strict_prefix s k) fs))"
    from makedirs_cases [OF m] obtain e where "fs1 = fs @ e" by blast
    with f show ?thesis by simp
  qed
qed

lemma copytree_target:
  assumes "copytree fs src dst = (fs2, Inr u)"
  shows "\<exists>q. canon fs2 dst = Some q \<and> map_of fs q = None \<and> q \<noteq> []"
proof -
  from assms obtain s fs1 q where m: "makedirs fs dst = (fs1, Inr q)"
    and f: "\<exists>e. fs2 = fs1 @ e"
    unfolding copytree_def Let_def
    by (auto split: option.splits if_splits prod.splits sum.splits)
  from makedirs_cases [OF m]
  have w: "walk fs1 [] dst = Some q" and n: "map_of fs q = None" "q \<noteq> []"
    by blast+
  from f w have "canon fs2 dst = Some q"
    unfolding canon_def by (auto intro: walk_append_fs)
  with n show ?thesis by blast
qed

lemma copytree_nodots:
  assumes wf: "wf_fs fs" and c: "copytree fs src dst = (fs2, r)"
  shows "\<forall>k\<in>fst ` set fs2. ''..'' \<notin> set k"
proof -
  have k0: "\<forall>k\<in>fst ` set fs. ''..'' \<notin> set k"
    using wf by (auto simp: wf_fs_def list_all_iff)
  from copytree_cases [OF c] show ?thesis
  proof (elim disjE exE conjE)
    assume "fs2 = fs"
    with k0 show ?thesis by simp
  next
    fix s fs1 res
    assume m: "makedirs fs dst = (fs1, res)" and f: "fs2 = fs1"
    from makedirs_cases [OF m] obtain e where e: "fs1 = fs @ e"
      and ne: "\<forall>k\<in>fst ` set e. ''..'' \<notin> set k"
      by blast
    with k0 show ?thesis unfolding f e by auto
  next
    fix s fs1 res
    assume m: "makedirs fs dst = (fs1, res)" and f: "fs2 = fs1"
    from makedirs_cases [OF m] obtain e where e: "fs1 = fs @ e"
      and ne: "\<forall>k\<in>fst ` set e. ''..'' \<notin> set k"
      by blast
    with k0 show ?thesis unfolding f e by auto
  next
    fix s fs1 res q
    assume m: "makedirs fs dst = (fs1, res)" and r: "res = Inr q"
      and f: "fs2 = fs1 @ map (\<lambda>(k, n). (q @ drop (length s) k, n))
                                     (filter (\<lambda>(k, n). copyable n)
                                        (filter (\<lambda>(k, n). strict_prefix s k) fs))"
    from makedirs_cases [OF m] r obtain e where e: "fs1 = fs @ e"
      and ne: "\<forall>k\<in>fst ` set e. ''..'' \<notin> set k" and nq: "''..'' \<notin> set q"
      by blast
    have h: "''..'' \<notin> set (q @ drop (length s) k)" if "(k, n) \<in> set fs" for k n
    proof -
      from that k0 have "''..'' \<notin> set k" by force
      with nq show ?thesis by (auto dest: in_set_dropD)
    qed
    show ?thesis
    proof
      fix k
      assume "k \<in> fst ` set fs2"
      then consider "k \<in> fst ` set fs" | "k \<in> fst ` set e"
        | k' n where "(k', n) \<in> set fs" "k = q @ drop (length s) k'"
        unfolding f e by auto
      then show "''..'' \<notin> set k"
      proof cases
        case 1 with k0 show ?thesis by blast
      next
        case 2 with ne show ?thesis by blast
      next
        case 3 with h show ?thesis by blast
      qed
    qed
  qed
qed

lemma rglob_written_absent:
  assumes wf: "wf_fs fs"
    and nd: "\<forall>k\<in>fst ` set fs2. ''..'' \<notin> set k"
    and cq: "canon fs2 d = Some q" and absent: "map_of fs q = None" and ne: "q \<noteq> []"
    and p: "p \<in> set (rglob fs2 d)" and k: "canon fs2 p = Some k"
  shows "map_of fs k = None"
proof -
  from p cq obtain k0 where k0: "k0 \<in> fst ` set fs2" and sp: "strict_prefix q k0"
    and pd: "p = d @ drop (length q) k0"
    by (auto simp: rglob_def split: if_splits)
  from sp have eq: "k0 = q @ drop (length q) k0"
    by (auto simp: strict_prefix_def prefix_def)
  from nd k0 have "''..'' \<notin> set k0" by blast
  then have nds: "''..'' \<notin> set (drop (length q) k0)"
    by (auto dest: in_set_dropD)
  from k cq have "walk fs2 q (drop (length q) k0) = Some k"
    unfolding canon_def pd by (simp add: walk_append_path)
  from walk_nodots [OF nds this] eq have "k = k0" by simp
  with wf_fs_below_absent [OF wf absent ne sp] show ?thesis by simp
qed

lemma copy2_new_file:
  assumes ne: "\<not> path_exists fs dst" and c: "copy2 fs src dst = Inr fs1"
  shows "\<exists>q n. canon fs dst = Some q \<and> q \<noteq> [] \<and> map_of fs q = None \<and> fs1 = fs @ [(q, n)]"
proof -
  from ne have l: "lookup fs dst = None" by (simp add: path_exists_def)
  then have nd: "\<not> is_dir fs dst" by (simp add: is_dir_def)
  from l have "canon fs dst = None \<or> (\<exists>q. canon fs dst = Some q \<and> q \<noteq> [] \<and> map_of fs q = None)"
    by (auto simp: lookup_def split: option.splits if_splits)
  then show ?thesis
  proof
    assume "canon fs dst = None"
    with c nd show ?thesis
      by (auto simp: copy2_def Let_def split: option.splits node.splits if_splits)
  next
    assume "\<exists>q. canon fs dst = Some q \<and> q \<noteq> [] \<and> map_of fs q = None"
    then obtain q where q: "canon fs dst = Some q" "q \<noteq> []" "map_of fs q = None" by blast
    with c nd have "\<exists>n. fs1 = fs @ [(q, n)]"
      by (auto simp: copy2_def Let_def split: option.splits node.splits if_splits)
    with q show ?thesis by blast
  qed
qed

lemma create_renamed_copy_keeps:
  assumes wf: "wf_fs fs"
    and c: "create_renamed_copy cfg fs item old new dry_run = (fs', r)"
    and k: "map_of fs k = Some n"
  shows "map_of fs' k = Some n"
proof (cases "transform_name cfg (name_of item) old new")
  case (Inl e)
  with c k show ?thesis by (simp add: create_renamed_copy_def)
next
  case (Inr new_name)
  let ?new_item = "joinpath (parent item) new_name"
  show ?thesis
  proof (cases "new_name = name_of item \<or> path_exists fs ?new_item \<or> dry_run")
    case True
    with c k Inr show ?thesis
      by (auto simp: create_renamed_copy_def Let_def split: if_splits)
  next
    case False
    then have ne: "\<not> path_exists fs ?new_item" by simp
    show ?thesis
    proof (cases "is_dir fs item")
      case True
      obtain fs1 res where ct: "copytree fs item ?new_item = (fs1, res)"
        by (cases "copytree fs item ?new_item")
      from copytree_extends [OF ct] obtain e where e: "fs1 = fs @ e" by blast
      have k1: "map_of fs1 k = Some n"
        unfolding e using k by (rule map_of_append_keep)
      show ?thesis
      proof (cases res)
        case (Inl err)
        with c Inr False True ct have "fs' = fs1"
          by (simp add: create_renamed_copy_def Let_def)
        with k1 show ?thesis by simp
      next
        case (Inr u)
        obtain fs2 m where rd: "replace_in_files cfg fs1 (rglob fs1 ?new_item) old new = (fs2, m)"
          by (cases "replace_in_files cfg fs1 (rglob fs1 ?new_item) old new")
        from c \<open>transform_name cfg (name_of item) old new = Inr new_name\<close> False True ct Inr rd
        have f: "fs' = fs2"
          by (simp add: create_renamed_copy_def Let_def replace_content_in_directory_def)
        from copytree_target [OF ct [unfolded Inr]] obtain q
          where q: "canon fs1 ?new_item = Some q" "map_of fs q = None" "q \<noteq> []"
          by blast
        have nd: "\<forall>k\<in>fst ` set fs1. ''..'' \<notin> set k"
          using wf ct by (rule copytree_nodots)
        have "k \<notin> {k. \<exists>p\<in>set (rglob fs1 ?new_item). canon fs1 p = Some k}"
        proof
          assume "k \<in> {k. \<exists>p\<in>set (rglob fs1 ?new_item). canon fs1 p = Some k}"
          then obtain p where "p \<in> set (rglob fs1 ?new_item)" "canon fs1 p = Some k"
            by blast
          from rglob_written_absent [OF wf nd q this] k show False by simp
        qed
        with replace_in_files_content_step [OF rd] have "map_of fs2 k = map_of fs1 k"
          unfolding content_step_def by blast
        with k1 f show ?thesis by simp
      qed
    next
      case nd: False
      show ?thesis
      proof (cases "copy2 fs item ?new_item")
        case (Inl err)
        with c Inr False nd k show ?thesis
          by (simp add: create_renamed_copy_def Let_def)
      next
        case cp: (Inr fs1)
        obtain fs2 b where rf: "replace_content_in_file cfg fs1 ?new_item old new = (fs2, b)"
          by (cases "replace_content_in_file cfg fs1 ?new_item old new")
        from c Inr False nd cp rf have f: "fs' = fs2"
          by (simp add: create_renamed_copy_def Let_def)
        from copy2_new_file [OF ne cp] obtain q nn
          where q: "canon fs ?new_item = Some q" "q \<noteq> []" "map_of fs q = None"
            and e: "fs1 = fs @ [(q, nn)]"
          by blast
        have k1: "map_of fs1 k = Some n"
          unfolding e using k by (rule map_of_append_keep)
        have "canon fs1 ?new_item = Some q"
          using q(1) unfolding canon_def e by (rule walk_append_fs)
        moreover have "k \<noteq> q" using k q(3) by auto
        ultimately have "k \<notin> {k. canon fs1 ?new_item = Some k}" by simp
        with rcf_content_step [OF rf] have "map_of fs2 k = map_of fs1 k"
          unfolding content_step_def by blast
        with k1 f show ?thesis by simp
      qed
    qed
  qed
qed

section \<open>Facts about well-formed filesystems\<close>

text \<open>
  Every operation of the copy engine takes a well-formed filesystem to a well-formed
  one: the entries it appends stand at paths that had none, inside a directory. So the
  loops keep every entry they find.
\<close>

lemma wf_fs_alt:
  "wf_fs fs = (distinct (map fst fs) \<and> (\<forall>k\<in>fst ` set fs. entry_ok fs k))"
  by (auto simp: wf_fs_def entry_ok_def list_all_iff)

lemma entry_ok_append: "entry_ok fs k \<Longrightarrow> entry_ok (fs @ e) k"
  by (simp add: entry_ok_def dir_at_append)

lemma wf_fs_append1:
  assumes "wf_fs fs" and "map_of fs k = None" and "entry_ok fs k"
  shows "wf_fs (fs @ [(k, n)])"
proof -
  from assms(2) have "k \<notin> fst ` set fs" by (simp add: map_of_eq_None_iff)
  with assms(1,3) show ?thesis
    unfolding wf_fs_alt by (auto intro: entry_ok_append)
qed

lemma wf_fs_content_step:
  assumes "wf_fs fs" and "content_step cs olds W fs fs'"
  shows "wf_fs fs'"
proof -
  from assms(2) have m: "map fst fs' = map fst fs" by (simp add: content_step_def)
  then have s: "fst ` set fs' = fst ` set fs" by (metis set_map)
  have "entry_ok fs' k = entry_ok fs k" for k
    by (simp add: entry_ok_def content_step_dir_at [OF assms(2)])
  with assms(1) m s show ?thesis by (simp add: wf_fs_alt)
qed

lemma wf_fs_update_file:
  assumes "wf_fs fs" and "map_of fs q = Some (File c r w)"
  shows "wf_fs (AList.update q (File c' r' w') fs)"
proof -
  from assms(2) have in_keys: "q \<in> fst ` set fs" by (force dest: map_of_SomeD)
  then have m: "map fst (AList.update q (File c' r' w') fs) = map fst fs"
    by (simp add: update_keys)
  then have s: "fst ` set (AList.update q (File c' r' w') fs) = fst ` set fs"
    by (metis set_map)
  have "dir_at (AList.update q (File c' r' w') fs) k = dir_at fs k" for k
    using assms(2) by (auto simp: dir_at_def update_conv')
  then have "entry_ok (AList.update q (File c' r' w') fs) k = entry_ok fs k" for k
    by (simp add: entry_ok_def)
  with assms(1) m s show ?thesis by (simp add: wf_fs_alt)
qed

lemma replace_content_in_file_wf:
  "wf_fs fs \<Longrightarrow> wf_fs (fst (replace_content_in_file cfg fs p old new))"
  using rcf_content_step [of cfg fs p old new] wf_fs_content_step
  by (cases "replace_content_in_file cfg fs p old new") auto

lemma replace_in_files_wf:
  "wf_fs fs \<Longrightarrow> wf_fs (fst (replace_in_files cfg fs ps old new))"
  using replace_in_files_content_step [of cfg fs ps old new] wf_fs_content_step
  by (cases "replace_in_files cfg fs ps old new") auto

lemma wf_fs_parent_dir:
  assumes "wf_fs fs" and "dir_at fs cur"
  shows "dir_at fs (butlast cur)"
proof (cases "cur = []")
  case True
  then show ?thesis by (simp add: dir_at_def)
next
  case False
  with assms(2) have "map_of fs cur = Some Dir" by (simp add: dir_at_def)
  with wf_fs_entry [OF assms(1)] show ?thesis by blast
qed

lemma makedirs_walk_wf:
  "wf_fs fs \<Longrightarrow> dir_at fs cur \<Longrightarrow> ''..'' \<notin> set cur \<Longrightarrow>
     makedirs_walk fs cur p = (fs1, r) \<Longrightarrow> wf_fs fs1"
proof (induction p arbitrary: fs cur)
  case Nil
  then show ?case by simp
next
  case (Cons c cs)
  let ?nxt = "if c = ''..'' then butlast cur else cur @ [c]"
  have nd: "''..'' \<notin> set ?nxt"
    using Cons.prems(3) by (auto dest: in_set_butlastD)
  show ?case
  proof (cases "dir_at fs ?nxt")
    case True
    show ?thesis
    proof (cases "cs = []")
      case True
      with \<open>dir_at fs ?nxt\<close> Cons.prems show ?thesis by (auto simp: Let_def)
    next
      case False
      with True Cons.prems(4) have "makedirs_walk fs ?nxt cs = (fs1, r)"
        by (simp add: Let_def)
      from Cons.IH [OF Cons.prems(1) True nd this] show ?thesis .
    qed
  next
    case False
    show ?thesis
    proof (cases "map_of fs ?nxt = None")
      case none: True
      with False Cons.prems(4)
      have m: "makedirs_walk (fs @ [(?nxt, Dir)]) ?nxt cs = (fs1, r)"
        by (simp add: Let_def)
      have up: "c \<noteq> ''..''"
      proof
        assume "c = ''..''"
        with False wf_fs_parent_dir [OF Cons.prems(1,2)] show False by simp
      qed
      then have ok: "entry_ok fs ?nxt"
        using Cons.prems(2,3) by (simp add: entry_ok_def)
      have w: "wf_fs (fs @ [(?nxt, Dir)])"
        using Cons.prems(1) none ok by (rule wf_fs_append1)
      have d: "dir_at (fs @ [(?nxt, Dir)]) ?nxt"
        using none by (auto simp: dir_at_def map_add_def)
      from Cons.IH [OF w d nd m] show ?thesis .
    next
      case n: False
      with False Cons.prems show ?thesis by (auto simp: Let_def)
    qed
  qed
qed

text \<open>The last directory \<open>makedirs\<close> makes is new and empty.\<close>

lemma makedirs_walk_last:
  "wf_fs fs \<Longrightarrow> dir_at fs cur \<Longrightarrow> ''..'' \<notin> set cur \<Longrightarrow> p \<noteq> [] \<Longrightarrow>
     makedirs_walk fs cur p = (fs1, Inr q) \<Longrightarrow>
     \<exists>e. fs1 = (fs @ e) @ [(q, Dir)] \<and> wf_fs (fs @ e) \<and> map_of (fs @ e) q = None
          \<and> entry_ok (fs @ e) q"
proof (induction p arbitrary: fs cur)
  case Nil
  then show ?case by simp
next
  case (Cons c cs)
  let ?nxt = "if c = ''..'' then butlast cur else cur @ [c]"
  have nd: "''..'' \<notin> set ?nxt"
    using Cons.prems(3) by (auto dest: in_set_butlastD)
  show ?case
  proof (cases "dir_at fs ?nxt")
    case True
    with Cons.prems(5) have cs: "cs \<noteq> []" and m: "makedirs_walk fs ?nxt cs = (fs1, Inr q)"
      by (auto simp: Let_def split: if_splits)
    from Cons.IH [OF Cons.prems(1) True nd cs m] show ?thesis .
  next
    case False
    with Cons.prems(5) have none: "map_of fs ?nxt = None"
      and m: "makedirs_walk (fs @ [(?nxt, Dir)]) ?nxt cs = (fs1, Inr q)"
      by (auto simp: Let_def split: if_splits)
    have up: "c \<noteq> ''..''"
    proof
      assume "c = ''..''"
      with False wf_fs_parent_dir [OF Cons.prems(1,2)] show False by simp
    qed
    then have ok: "entry_ok fs ?nxt"
      using Cons.prems(2,3) by (simp add: entry_ok_def)
    have w: "wf_fs (fs @ [(?nxt, Dir)])"
      using Cons.prems(1) none ok by (rule wf_fs_append1)
    have d: "dir_at (fs @ [(?nxt, Dir)]) ?nxt"
      using none by (auto simp: dir_at_def map_add_def)
    show ?thesis
    proof (cases "cs = []")
      case True
      with m have f: "fs1 = fs @ [(?nxt, Dir)]" and qe: "q = ?nxt" by auto
      have "fs1 = (fs @ []) @ [(q, Dir)] \<and> wf_fs (fs @ []) \<and> map_of (fs @ []) q = None
              \<and> entry_ok (fs @ []) q"
        using f Cons.prems(1) none ok unfolding qe by simp
      then show ?thesis by (rule exI [of _ "[]"])
    next
      case cs: False
      from Cons.IH [OF w d nd cs m] obtain e
        where "fs1 = ((fs @ [(?nxt, Dir)]) @ e) @ [(q, Dir)]"
          and "wf_fs ((fs @ [(?nxt, Dir)]) @ e)"
          and "map_of ((fs @ [(?nxt, Dir)]) @ e) q = None"
          and "entry_ok ((fs @ [(?nxt, Dir)]) @ e) q"
        by blast
      then have "fs1 = (fs @ ((?nxt, Dir) # e)) @ [(q, Dir)]
                 \<and> wf_fs (fs @ ((?nxt, Dir) # e))
                 \<and> map_of (fs @ ((?nxt, Dir) # e)) q = None
                 \<and> entry_ok (fs @ ((?nxt, Dir) # e)) q"
        by simp
      then show ?thesis by blast
    qed
  qed
qed

lemma walk_new_entry_ok:
  "wf_fs fs \<Longrightarrow> dir_at fs cur \<Longrightarrow> ''..'' \<notin> set cur \<Longrightarrow> walk fs cur p = Some q \<Longrightarrow>
     map_of fs q = None \<Longrightarrow> q \<noteq> [] \<Longrightarrow> entry_ok fs q"
proof (induction p arbitrary: cur)
  case Nil
  then show ?case by (simp add: dir_at_def)
next
  case (Cons c cs)
  let ?nxt = "if c = ''..'' then butlast cur else cur @ [c]"
  have nd: "''..'' \<notin> set ?nxt"
    using Cons.prems(3) by (auto dest: in_set_butlastD)
  from Cons.prems(2,4) have w: "walk fs ?nxt cs = Some q" by simp
  show ?case
  proof (cases cs)
    case Nil
    with w have q: "q = ?nxt" by simp
    have "c \<noteq> ''..''"
    proof
      assume "c = ''..''"
      with q wf_fs_parent_dir [OF Cons.prems(1,2)] Cons.prems(5,6) show False
        by (simp add: dir_at_def)
    qed
    with q Cons.prems(2,3) show ?thesis by (simp add: entry_ok_def)
  next
    case (Cons c' cs')
    with w have "dir_at fs ?nxt" by (auto split: if_splits)
    from Cons.IH [OF Cons.prems(1) this nd w Cons.prems(5,6)] show ?thesis .
  qed
qed

lemma copy2_wf:
  assumes wf: "wf_fs fs" and c: "copy2 fs src dst = Inr fs1"
  shows "wf_fs fs1"
proof -
  let ?dst = "if is_dir fs dst then dst @ [name_of src] else dst"
  from c obtain q cc r w where q: "canon fs ?dst = Some q" "q \<noteq> []"
    and f: "(map_of fs q = None \<and> fs1 = fs @ [(q, File cc r w)])
            \<or> (\<exists>c' r'. map_of fs q = Some (File c' r' True) \<and> fs1 = AList.update q (File cc r w) fs)"
    unfolding copy2_def Let_def
    by (auto split: option.splits node.splits if_splits)
  from f show ?thesis
  proof (elim disjE conjE exE)
    assume n: "map_of fs q = None" and e: "fs1 = fs @ [(q, File cc r w)]"
    have "entry_ok fs q"
      using wf _ _ q(1) [unfolded canon_def] n q(2)
      by (rule walk_new_entry_ok) (simp_all add: dir_at_def)
    with wf n show ?thesis unfolding e by (rule wf_fs_append1)
  next
    fix c' r'
    assume "map_of fs q = Some (File c' r' True)" and "fs1 = AList.update q (File cc r w) fs"
    with wf show ?thesis by (simp add: wf_fs_update_file)
  qed
qed

lemma makedirs_wf:
  assumes "wf_fs fs" and "makedirs fs dst = (fs1, r)"
  shows "wf_fs fs1"
proof (cases "dst = []")
  case True
  with assms show ?thesis by (simp add: makedirs_def)
next
  case False
  with assms(2) have m: "makedirs_walk fs [] dst = (fs1, r)" by (simp add: makedirs_def)
  have "dir_at fs []" "''..'' \<notin> set ([] :: path)" by (simp_all add: dir_at_def)
  from makedirs_walk_wf [OF assms(1) this m] show ?thesis .
qed

lemma makedirs_last:
  assumes "wf_fs fs" and "makedirs fs dst = (fs1, Inr q)"
  shows "\<exists>fsc. fs1 = fsc @ [(q, Dir)] \<and> wf_fs fsc \<and> map_of fsc q = None \<and> entry_ok fsc q"
proof -
  from assms(2) have ne: "dst \<noteq> []" and m: "makedirs_walk fs [] dst = (fs1, Inr q)"
    by (auto simp: makedirs_def split: if_splits)
  have "dir_at fs []" "''..'' \<notin> set ([] :: path)" by (simp_all add: dir_at_def)
  from makedirs_walk_last [OF assms(1) this ne m] show ?thesis by blast
qed

text \<open>Grafting the entries below \<open>s\<close> below a new, empty directory \<open>q\<close>.\<close>

lemma graft_wf:
  fixes s q :: path and fs fsc :: fs
  assumes wf: "wf_fs fs" and wfc: "wf_fs fsc" and qn: "map_of fsc q = None" and qok: "entry_ok fsc q"
  defines "E \<equiv> filter (\<lambda>(k, n). copyable n) (filter (\<lambda>(k, n). strict_prefix s k) fs)"
  defines "g \<equiv> (\<lambda>(k, n). (q @ drop (length s) k, n :: node))"
  shows "wf_fs ((fsc @ [(q, Dir)]) @ map g E)"
proof -
  let ?fs1 = "fsc @ [(q, Dir)]"
  let ?fs2 = "?fs1 @ map g E"
  have wf1: "wf_fs ?fs1" using wfc qn qok by (rule wf_fs_append1)
  have qne: "q \<noteq> []" and qnd: "''..'' \<notin> set q"
    using qok by (simp_all add: entry_ok_def)
  have Ein: "(k, n) \<in> set fs \<and> strict_prefix s k \<and> copyable n" if "(k, n) \<in> set E" for k n
    using that by (auto simp: E_def)
  have split_k: "k = s @ drop (length s) k \<and> drop (length s) k \<noteq> []" if "strict_prefix s k" for k
    using that by (auto simp: strict_prefix_def prefix_def)
  have dE: "distinct (map fst E)"
    using wf unfolding E_def wf_fs_def by (simp add: distinct_map_filter)
  have gk: "map fst (map g E) = map (\<lambda>k. q @ drop (length s) k) (map fst E)"
    by (auto simp: g_def)
  have inj: "inj_on (\<lambda>k. q @ drop (length s) k) (set (map fst E))"
  proof (rule inj_onI)
    fix k k'
    assume a: "k \<in> set (map fst E)" "k' \<in> set (map fst E)"
      and e: "q @ drop (length s) k = q @ drop (length s) k'"
    from a Ein have "strict_prefix s k" "strict_prefix s k'" by auto
    with split_k [of k] split_k [of k'] e show "k = k'" by (metis same_append_eq)
  qed
  have dnew: "distinct (map fst (map g E))"
    unfolding gk by (rule iffD2 [OF distinct_map]) (rule conjI [OF dE inj])
  have fresh: "k \<notin> fst ` set ?fs1" if "k \<in> fst ` set (map g E)" for k
  proof
    assume old: "k \<in> fst ` set ?fs1"
    from that obtain k0 n where k0: "(k0, n) \<in> set E" and k: "k = q @ drop (length s) k0"
      by (auto simp: g_def)
    from Ein [OF k0] split_k [of k0] have sfx: "drop (length s) k0 \<noteq> []" by blast
    then have sp: "strict_prefix q k" unfolding k by (simp add: strict_prefix_def)
    then have "k \<noteq> q" by auto
    with old have "k \<in> fst ` set fsc" by auto
    then have "map_of fsc k \<noteq> None" by (simp add: map_of_eq_None_iff)
    with wf_fs_below_absent [OF wfc qn qne sp] show False by simp
  qed
  have d1: "distinct (map fst ?fs1)"
    using wf1 by (simp only: wf_fs_alt)
  have dj: "set (map fst ?fs1) \<inter> set (map fst (map g E)) = {}"
  proof (rule equals0I)
    fix k
    assume "k \<in> set (map fst ?fs1) \<inter> set (map fst (map g E))"
    then have "k \<in> fst ` set ?fs1" and "k \<in> fst ` set (map g E)"
      by (simp_all only: Int_iff set_map)
    with fresh show False by blast
  qed
  have "distinct (map fst ?fs1 @ map fst (map g E))"
    by (rule iffD2 [OF distinct_append]) (intro conjI d1 dnew dj)
  then have d2: "distinct (map fst ?fs2)"
    by (simp only: map_append)
  have ok_new: "entry_ok ?fs2 k" if "k \<in> fst ` set (map g E)" for k
  proof -
    from that obtain k0 n where k0: "(k0, n) \<in> set E" and k: "k = q @ drop (length s) k0"
      by (auto simp: g_def)
    let ?sfx = "drop (length s) k0"
    from Ein [OF k0] have in0: "(k0, n) \<in> set fs" and sp: "strict_prefix s k0" by blast+
    from split_k [OF sp] have k0e: "k0 = s @ ?sfx" and sfx: "?sfx \<noteq> []" by blast+
    have m0: "map_of fs k0 = Some n"
      using wf in0 by (simp add: wf_fs_def)
    from wf_fs_entry [OF wf m0] have nd0: "''..'' \<notin> set k0" and par: "dir_at fs (butlast k0)"
      by blast+
    have bl: "butlast k = q @ butlast ?sfx"
      unfolding k using sfx by (simp add: butlast_append)
    have "dir_at ?fs2 (q @ butlast ?sfx)"
    proof (cases "butlast ?sfx = []")
      case True
      have "map_of ?fs1 q = Some Dir" using qn by (simp add: map_add_def)
      then have "map_of ?fs2 q = Some Dir" by (rule map_of_append_keep)
      with True show ?thesis by (simp add: dir_at_def)
    next
      case False
      have b0: "butlast k0 = s @ butlast ?sfx"
      proof -
        from sp obtain x where x: "k0 = s @ x" "x \<noteq> []"
          by (auto simp: strict_prefix_def prefix_def)
        then show ?thesis by (simp add: butlast_append)
      qed
      with False have "butlast k0 \<noteq> []" by simp
      with par have "map_of fs (butlast k0) = Some Dir" by (simp add: dir_at_def)
      then have "(butlast k0, Dir) \<in> set fs" by (rule map_of_SomeD)
      moreover have "strict_prefix s (butlast k0)"
        unfolding b0 using False by (simp add: strict_prefix_def)
      ultimately have "(butlast k0, Dir) \<in> set E"
        by (simp add: E_def copyable_def)
      then have "g (butlast k0, Dir) \<in> set (map g E)" by simp
      then have "(q @ butlast ?sfx, Dir) \<in> set ?fs2"
        unfolding g_def b0 by simp
      with d2 have "map_of ?fs2 (q @ butlast ?sfx) = Some Dir"
        by (rule map_of_is_SomeI)
      then show ?thesis by (simp add: dir_at_def)
    qed
    moreover have "''..'' \<notin> set k"
      unfolding k using qnd nd0 by (auto dest: in_set_dropD)
    moreover have "k \<noteq> []" unfolding k using qne by simp
    ultimately show ?thesis unfolding entry_ok_def bl by simp
  qed
  have ok_old: "entry_ok ?fs2 k" if "k \<in> fst ` set ?fs1" for k
    using that wf1 unfolding wf_fs_alt by (blast intro: entry_ok_append)
  have "\<forall>k\<in>fst ` set ?fs2. entry_ok ?fs2 k"
  proof
    fix k
    assume "k \<in> fst ` set ?fs2"
    then have "k \<in> fst ` set ?fs1 \<or> k \<in> fst ` set (map g E)" by auto
    with ok_old ok_new show "entry_ok ?fs2 k" by blast
  qed
  with d2 show ?thesis unfolding wf_fs_alt by blast
qed

lemma copytree_wf:
  assumes wf: "wf_fs fs" and c: "copytree fs src dst = (fs2, r)"
  shows "wf_fs fs2"
proof -
  from copytree_cases [OF c] show ?thesis
  proof (elim disjE exE conjE)
    assume "fs2 = fs"
    with wf show ?thesis by simp
  next
    fix s fs1 res
    assume "makedirs fs dst = (fs1, res)" "fs2 = fs1"
    with makedirs_wf [OF wf] show ?thesis by blast
  next
    fix s fs1 res
    assume "makedirs fs dst = (fs1, res)" "fs2 = fs1"
    with makedirs_wf [OF wf] show ?thesis by blast
  next
    fix s fs1 res q
    assume m: "makedirs fs dst = (fs1, res)" and r: "res = Inr q"
      and f: "fs2 = fs1 @ map (\<lambda>(k, n). (q @ drop (length s) k, n))
                                     (filter (\<lambda>(k, n). copyable n)
                                        (filter (\<lambda>(k, n). strict_prefix s k) fs))"
    from makedirs_last [OF wf m [unfolded r]] obtain fsc
      where "fs1 = fsc @ [(q, Dir)]" "wf_fs fsc" "map_of fsc q = None" "entry_ok fsc q"
      by blast
    with graft_wf [OF wf this(2,3,4), of s] show ?thesis unfolding f by simp
  qed
qed

lemma create_renamed_copy_wf:
  assumes wf: "wf_fs fs"
  shows "wf_fs (fst (create_renamed_copy cfg fs item old new dry_run))"
proof (cases "transform_name cfg (name_of item) old new")
  case (Inl e)
  with wf show ?thesis by (simp add: create_renamed_copy_def)
next
  case (Inr new_name)
  let ?new_item = "joinpath (parent item) new_name"
  show ?thesis
  proof (cases "new_name = name_of item \<or> path_exists fs ?new_item \<or> dry_run")
    case True
    with wf Inr show ?thesis
      by (auto simp: create_renamed_copy_def Let_def)
  next
    case False
    show ?thesis
    proof (cases "is_dir fs item")
      case True
      obtain fs1 res where ct: "copytree fs item ?new_item = (fs1, res)"
        by (cases "copytree fs item ?new_item")
      have w1: "wf_fs fs1" using wf ct by (rule copytree_wf)
      show ?thesis
      proof (cases res)
        case (Inl err)
        with Inr False True ct w1 show ?thesis
          by (simp add: create_renamed_copy_def Let_def)
      next
        case u: (Inr u)
        from Inr False True ct u
        have "fst (create_renamed_copy cfg fs item old new dry_run)
                = fst (replace_in_files cfg fs1 (rglob fs1 ?new_item) old new)"
          by (simp add: create_renamed_copy_def Let_def replace_content_in_directory_def)
        with replace_in_files_wf [OF w1] show ?thesis by simp
      qed
    next
      case nd: False
      show ?thesis
      proof (cases "copy2 fs item ?new_item")
        case (Inl err)
        with Inr False nd wf show ?thesis
          by (simp add: create_renamed_copy_def Let_def)
      next
        case cp: (Inr fs1)
        have w1: "wf_fs fs1" using wf cp by (rule copy2_wf)
        from Inr False nd cp
        have "fst (create_renamed_copy cfg fs item old new dry_run)
                = fst (replace_content_in_file cfg fs1 ?new_item old new)"
          by (simp add: create_renamed_copy_def Let_def)
        with replace_content_in_file_wf [OF w1] show ?thesis by simp
      qed
    qed
  qed
qed

lemma copy_items_keeps:
  "wf_fs fs \<Longrightarrow>
     wf_fs (fst (copy_items cfg fs items old new dry_run))
     \<and> (\<forall>k n. map_of fs k = Some n
            \<longrightarrow> map_of (fst (copy_items cfg fs items old new dry_run)) k = Some n)"
proof (induction items arbitrary: fs)
  case Nil
  then show ?case by simp
next
  case (Cons item items)
  obtain fs1 r where c: "create_renamed_copy cfg fs item old new dry_run = (fs1, r)"
    by (cases "create_renamed_copy cfg fs item old new dry_run")
  have w1: "wf_fs fs1"
    using create_renamed_copy_wf [OF Cons.prems, of cfg item old new dry_run] c by simp
  have k1: "map_of fs1 k = Some n" if "map_of fs k = Some n" for k n
    using Cons.prems c that by (rule create_renamed_copy_keeps)
  show ?case
  proof (cases r)
    case (Inl e)
    with c w1 k1 show ?thesis by simp
  next
    case (Inr created)
    obtain fs2 r2 where l: "copy_items cfg fs1 items old new dry_run = (fs2, r2)"
      by (cases "copy_items cfg fs1 items old new dry_run")
    from c Inr l have f: "fst (copy_items cfg fs (item # items) old new dry_run) = fs2"
      by (cases r2) simp_all
    from Cons.IH [OF w1] l have "wf_fs fs2"
      and "\<And>k n. map_of fs1 k = Some n \<Longrightarrow> map_of fs2 k = Some n"
      by simp_all
    with k1 show ?thesis unfolding f by blast
  qed
qed

lemma copy_replacements_keeps:
  "wf_fs fs \<Longrightarrow>
     wf_fs (fst (copy_replacements cfg fs repo_dir pairs dry_run))
     \<and> (\<forall>k n. map_of fs k = Some n
            \<longrightarrow> map_of (fst (copy_replacements cfg fs repo_dir pairs dry_run)) k = Some n)"
proof (induction pairs arbitrary: fs)
  case Nil
  then show ?case by simp
next
  case (Cons pr pairs)
  obtain old new where pr: "pr = (old, new)" by (cases pr)
  let ?items = "find_items_with_pattern cfg fs repo_dir old"
  obtain fs1 r where c: "copy_items cfg fs ?items old new dry_run = (fs1, r)"
    by (cases "copy_items cfg fs ?items old new dry_run")
  from copy_items_keeps [OF Cons.prems, of cfg ?items old new dry_run] c
  have w1: "wf_fs fs1" and k1: "\<And>k n. map_of fs k = Some n \<Longrightarrow> map_of fs1 k = Some n"
    by simp_all
  show ?case
  proof (cases r)
    case (Inl e)
    with c pr w1 k1 show ?thesis by simp
  next
    case (Inr m)
    obtain fs2 r2 where l: "copy_replacements cfg fs1 repo_dir pairs dry_run = (fs2, r2)"
      by (cases "copy_replacements cfg fs1 repo_dir pairs dry_run")
    from c Inr l pr have f: "fst (copy_replacements cfg fs repo_dir (pr # pairs) dry_run) = fs2"
      by (cases r2) simp_all
    from Cons.IH [OF w1] l have "wf_fs fs2"
      and "\<And>k n. map_of fs1 k = Some n \<Longrightarrow> map_of fs2 k = Some n"
      by simp_all
    with k1 show ?thesis unfolding f by blast
  qed
qed

section \<open>Facts about dry runs\<close>

lemma create_renamed_copy_dry:
  "fst (create_renamed_copy cfg fs item old new True) = fs"
  by (simp add: create_renamed_copy_def Let_def split: sum.splits)

lemma copy_items_dry: "fst (copy_items cfg fs items old new True) = fs"
proof (induction items)
  case Nil
  show ?case by simp
next
  case (Cons item items)
  obtain fs1 r where c: "create_renamed_copy cfg fs item old new True = (fs1, r)"
    by (cases "create_renamed_copy cfg fs item old new True")
  with create_renamed_copy_dry [of cfg fs item old new] have e: "fs1 = fs" by simp
  show ?case
    using Cons.IH unfolding copy_items.simps c e
    by (auto split: sum.splits prod.splits)
qed

lemma copy_replacements_dry: "fst (copy_replacements cfg fs repo_dir pairs True) = fs"
proof (induction pairs)
  case Nil
  show ?case by simp
next
  case (Cons pr pairs)
  obtain old new where pr: "pr = (old, new)" by (cases pr)
  let ?items = "find_items_with_pattern cfg fs repo_dir old"
  obtain fs1 r where c: "copy_items cfg fs ?items old new True = (fs1, r)"
    by (cases "copy_items cfg fs ?items old new True")
  with copy_items_dry [of cfg fs ?items old new] have e: "fs1 = fs" by simp
  show ?case
    using Cons.IH unfolding pr copy_replacements.simps c e
    by (auto split: sum.splits prod.splits)
qed

lemma fix_item_dry: "fst (fix_item cfg fs item old new True) = fs"
  by (simp add: fix_item_def)

lemma fix_items_dry: "fst (fix_items cfg fs items old new True) = fs"
proof (induction items)
  case Nil
  show ?case by simp
next
  case (Cons item items)
  obtain fs1 r where c: "fix_item cfg fs item old new True = (fs1, r)"
    by (cases "fix_item cfg fs item old new True")
  with fix_item_dry [of cfg fs item old new] have e: "fs1 = fs" by simp
  show ?case
    using Cons.IH unfolding fix_items.simps c e
    by (auto split: prod.splits)
qed

lemma fix_replacements_dry: "fst (fix_replacements cfg fs repo_dir pairs True) = fs"
proof (induction pairs)
  case Nil
  show ?case by simp
next
  case (Cons pr pairs)
  obtain old new where pr: "pr = (old, new)" by (cases pr)
  let ?items = "find_items_with_pattern cfg fs repo_dir new"
  obtain fs1 r where c: "fix_items cfg fs ?items old new True = (fs1, r)"
    by (cases "fix_items cfg fs ?items old new True")
  with fix_items_dry [of cfg fs ?items old new] have e: "fs1 = fs" by simp
  show ?case
    using Cons.IH unfolding pr fix_replacements.simps c e
    by (auto split: prod.splits)
qed

lemma create_renamed_copy_dry_agrees:
  "create_renamed_copy cfg fs item old new False = (fs', Inr b) \<Longrightarrow>
     create_renamed_copy cfg fs item old new True = (fs, Inr b)"
  unfolding create_renamed_copy_def Let_def
  by (auto split: sum.splits if_splits prod.splits)

section \<open>Claims\<close>

text \<open>
  C9. For a repository short name (an input that starts with none of \<open>http://\<close>,
  \<open>https://\<close>, \<open>git@\<close>), \<open>get_repo_name\<close> and \<open>construct_repo_url\<close> strip every trailing
  character that belongs to the set of the four characters dot, g, i, t, not the suffix
  \<open>.git\<close>: the name is the input without a tail made of those characters only, it does
  not end in any of them, and the URL ends in that name followed by \<open>.git\<close>.
\<close>

theorem short_name_rstrip_char_set:
  assumes "\<not> is_full_url repo_input"
  shows "(\<exists>tail. repo_input = get_repo_name repo_input @ tail
            \<and> set tail \<subseteq> {CHR ''.'', CHR ''g'', CHR ''i'', CHR ''t''})
       \<and> (get_repo_name repo_input = [] \<or>
           last (get_repo_name repo_input) \<notin> {CHR ''.'', CHR ''g'', CHR ''i'', CHR ''t''})
       \<and> suffix (''/'' @ get_repo_name repo_input @ ''.git'') (construct_repo_url cfg repo_input)
       \<and> get_repo_name ''audit'' = ''aud''"
proof -
  have n: "get_repo_name repo_input = rstrip ''.git'' repo_input"
    using assms by (simp add: get_repo_name_def)
  have cs: "set ''.git'' = {CHR ''.'', CHR ''g'', CHR ''i'', CHR ''t''}"
    by simp
  have 1: "\<exists>tail. repo_input = get_repo_name repo_input @ tail
            \<and> set tail \<subseteq> {CHR ''.'', CHR ''g'', CHR ''i'', CHR ''t''}"
    using rstrip_decompose [of repo_input "''.git''"] unfolding n cs .
  have 2: "get_repo_name repo_input = [] \<or>
           last (get_repo_name repo_input) \<notin> {CHR ''.'', CHR ''g'', CHR ''i'', CHR ''t''}"
    using rstrip_last [of "''.git''" repo_input] unfolding n cs by blast
  have 3: "suffix (''/'' @ get_repo_name repo_input @ ''.git'') (construct_repo_url cfg repo_input)"
    unfolding n using assms
    by (auto simp: construct_repo_url_def Let_def suffix_def)
  have 4: "get_repo_name ''audit'' = ''aud''"
    by (simp add: get_repo_name_def is_full_url_def rstrip_def)
  from 1 2 3 4 show ?thesis by blast
qed

theorem short_name_rstrip_char_set_witness:
  "\<not> is_full_url ''audit''
   \<and> \<not> suffix ''.git'' ''audit''
   \<and> get_repo_name ''audit'' = ''aud''
   \<and> get_repo_name ''audit'' \<noteq> ''audit''
   \<and> suffix ''/aud.git'' (construct_repo_url example_config ''audit'')"
proof -
  have h: "\<not> is_full_url ''audit''"
    by (simp add: is_full_url_def)
  have ns: "\<not> suffix ''.git'' ''audit''"
    by (simp add: suffix_def)
  from short_name_rstrip_char_set [OF h, of example_config]
  have "suffix (''/'' @ get_repo_name ''audit'' @ ''.git'') (construct_repo_url example_config ''audit'')"
    and n: "get_repo_name ''audit'' = ''aud''"
    by blast+
  then show ?thesis using h ns by simp
qed

text \<open>
  C7. A text file whose content does not hold the old string under the active case
  rule is not written: \<open>replace_content_in_file\<close> leaves the filesystem as it is and
  returns \<open>False\<close>.
\<close>

theorem no_write_when_old_absent:
  assumes "lookup fs file_path = Some (File c r w)"
    and "\<not> present_in (case_sensitive cfg) old_str c"
  shows "replace_content_in_file cfg fs file_path old_str new_str = (fs, False)"
  using assms(2,1) by (rule rcf_absent)

theorem no_write_when_old_absent_witness:
  "lookup locked_fs [''r'', ''notes.md''] = Some (File ''hello'' True True)
   \<and> \<not> present_in (case_sensitive example_config) ''dev'' ''hello''
   \<and> replace_content_in_file example_config locked_fs [''r'', ''notes.md''] ''dev'' ''prod''
       = (locked_fs, False)"
proof -
  have a: "lookup locked_fs [''r'', ''notes.md''] = Some (File ''hello'' True True)"
    by code_simp
  have "\<not> contains ''dev'' ''hello''"
    by code_simp
  then have b: "\<not> present_in (case_sensitive example_config) ''dev'' ''hello''"
    by (simp add: present_in_def example_config_def contains_sublist)
  from no_write_when_old_absent [OF a b] a b show ?thesis
    by blast
qed

text \<open>
  C10. \<open>replace_content_in_file\<close> never lets an exception out. Whatever is raised while
  the file is classified, read, substituted or written is caught, the filesystem is
  left as it was and the result is \<open>False\<close>, the same result as for a file that needs
  no change: so it is for a path with no entry, a file that cannot be read, a file
  that cannot be written, and a \<open>file\<close> utility that cannot be run.
\<close>

theorem replace_content_in_file_swallows_errors:
  "(replace_content_body cfg fs p old new = Inl e
      \<longrightarrow> replace_content_in_file cfg fs p old new = (fs, False))
   \<and> (lookup fs p = None \<longrightarrow> replace_content_in_file cfg fs p old new = (fs, False))
   \<and> (lookup fs p = Some (File c False w)
      \<longrightarrow> replace_content_in_file cfg fs p old new = (fs, False))
   \<and> (lookup fs p = Some (File c r False)
      \<longrightarrow> replace_content_in_file cfg fs p old new = (fs, False))
   \<and> (file_cmd cfg p (lookup fs p) = Inl e
      \<longrightarrow> replace_content_in_file cfg fs p old new = (fs, False))"
proof (intro conjI impI)
  assume "replace_content_body cfg fs p old new = Inl e"
  then show "replace_content_in_file cfg fs p old new = (fs, False)"
    by (rule rcf_error)
next
  assume "lookup fs p = None"
  then show "replace_content_in_file cfg fs p old new = (fs, False)"
    unfolding replace_content_in_file_def replace_content_body_def read_text_def
    by (auto split: sum.splits)
next
  assume "lookup fs p = Some (File c False w)"
  then show "replace_content_in_file cfg fs p old new = (fs, False)"
    unfolding replace_content_in_file_def replace_content_body_def read_text_def
    by (auto split: sum.splits)
next
  assume a: "lookup fs p = Some (File c r False)"
  obtain fs' b where r: "replace_content_in_file cfg fs p old new = (fs', b)"
    by (cases "replace_content_in_file cfg fs p old new")
  from rcf_cases [OF r] a show "replace_content_in_file cfg fs p old new = (fs, False)"
    unfolding r by (auto simp: lookup_def)
next
  assume "file_cmd cfg p (lookup fs p) = Inl e"
  then show "replace_content_in_file cfg fs p old new = (fs, False)"
    unfolding replace_content_in_file_def replace_content_body_def by simp
qed

theorem replace_content_in_file_swallows_errors_witness:
  "replace_content_body example_config locked_fs [''r'', ''locked.cfg''] ''dev'' ''prod''
      = Inl PermissionError
   \<and> replace_content_in_file example_config locked_fs [''r'', ''locked.cfg''] ''dev'' ''prod''
      = (locked_fs, False)
   \<and> lookup locked_fs [''r'', ''missing''] = None
   \<and> replace_content_in_file example_config locked_fs [''r'', ''missing''] ''dev'' ''prod''
      = (locked_fs, False)
   \<and> lookup locked_fs [''r'', ''secret.cfg''] = Some (File ''env=dev'' False True)
   \<and> replace_content_in_file example_config locked_fs [''r'', ''secret.cfg''] ''dev'' ''prod''
      = (locked_fs, False)
   \<and> file_cmd broken_file_config [''r'', ''notes.md''] (lookup locked_fs [''r'', ''notes.md''])
      = Inl FileNotFoundError
   \<and> replace_content_in_file broken_file_config locked_fs [''r'', ''notes.md''] ''dev'' ''prod''
      = (locked_fs, False)"
proof -
  have a: "replace_content_body example_config locked_fs [''r'', ''locked.cfg''] ''dev'' ''prod''
      = Inl PermissionError"
    by code_simp
  have b: "lookup locked_fs [''r'', ''missing''] = None"
    by code_simp
  have c: "lookup locked_fs [''r'', ''secret.cfg''] = Some (File ''env=dev'' False True)"
    by code_simp
  have d: "file_cmd broken_file_config [''r'', ''notes.md''] (lookup locked_fs [''r'', ''notes.md''])
      = Inl FileNotFoundError"
    by (simp add: broken_file_config_def)
  from a replace_content_in_file_swallows_errors
         [of example_config locked_fs "[''r'', ''locked.cfg'']" "''dev''" "''prod''" PermissionError]
  have 1: "replace_content_in_file example_config locked_fs [''r'', ''locked.cfg''] ''dev'' ''prod''
      = (locked_fs, False)"
    by blast
  from b replace_content_in_file_swallows_errors
         [of example_config locked_fs "[''r'', ''missing'']" "''dev''" "''prod''"]
  have 2: "replace_content_in_file example_config locked_fs [''r'', ''missing''] ''dev'' ''prod''
      = (locked_fs, False)"
    by blast
  from c replace_content_in_file_swallows_errors
         [of example_config locked_fs "[''r'', ''secret.cfg'']" "''dev''" "''prod''" _ "''env=dev''" True]
  have 3: "replace_content_in_file example_config locked_fs [''r'', ''secret.cfg''] ''dev'' ''prod''
      = (locked_fs, False)"
    by blast
  from d replace_content_in_file_swallows_errors
         [of broken_file_config locked_fs "[''r'', ''notes.md'']" "''dev''" "''prod''" FileNotFoundError]
  have 4: "replace_content_in_file broken_file_config locked_fs [''r'', ''notes.md''] ''dev'' ''prod''
      = (locked_fs, False)"
    by blast
  from a b c d 1 2 3 4 show ?thesis by blast
qed

text \<open>
  C8. When the name substitution returns the name it was given,
  \<open>create_renamed_copy\<close> creates nothing and returns \<open>False\<close>, and the item adds nothing to
  the count of the loop over the matching items.
\<close>

theorem noop_rename_creates_nothing:
  assumes "transform_name cfg (name_of item) old_str new_str = Inr (name_of item)"
  shows "create_renamed_copy cfg fs item old_str new_str dry_run = (fs, Inr False)
       \<and> copy_items cfg fs (item # rest) old_str new_str dry_run
           = copy_items cfg fs rest old_str new_str dry_run"
proof -
  have c: "create_renamed_copy cfg fs item old_str new_str dry_run = (fs, Inr False)"
    using assms by (simp add: create_renamed_copy_def)
  show ?thesis
  proof (cases "copy_items cfg fs rest old_str new_str dry_run")
    case (Pair fs2 r)
    then show ?thesis using c by (cases r) simp_all
  qed
qed

theorem noop_rename_creates_nothing_witness:
  "transform_name ci_config (name_of [''r'', ''notes.md'']) ''NOTES'' ''notes'' = Inr (name_of [''r'', ''notes.md''])
   \<and> find_items_with_pattern ci_config locked_fs [''r''] ''NOTES'' = [[''r'', ''notes.md'']]
   \<and> create_renamed_copy ci_config locked_fs [''r'', ''notes.md''] ''NOTES'' ''notes'' False
        = (locked_fs, Inr False)
   \<and> copy_items ci_config locked_fs [[''r'', ''notes.md'']] ''NOTES'' ''notes'' False
        = (locked_fs, Inr 0)"
proof -
  have a: "transform_name ci_config (name_of [''r'', ''notes.md'']) ''NOTES'' ''notes''
            = Inr (name_of [''r'', ''notes.md''])"
    by code_simp
  have b: "find_items_with_pattern ci_config locked_fs [''r''] ''NOTES'' = [[''r'', ''notes.md'']]"
    by code_simp
  from noop_rename_creates_nothing [OF a, of locked_fs False "[]"] a b show ?thesis
    by simp
qed

text \<open>
  C4 (the code departs from the claim). With case sensitivity off the replacement is
  handed to \<open>pattern.sub\<close>, which reads a backslash in it as the start of an escape:
  the configured text \<open>C:\new\<close> is inserted with a line feed in place of the
  backslash and the letter n, and a replacement that holds a backslash and the digit 1
  raises \<open>re.error\<close>. The case-sensitive path (\<open>str.replace\<close>) inserts the same text as
  configured.
\<close>

theorem ci_replacement_read_as_template:
  "re_sub_ignorecase ''dev'' (''C:'' @ [backslash] @ ''new'') ''DEV=1''
      = Inr (''C:'' @ [CHR 0x0A] @ ''ew=1'')
   \<and> str_replace ''dev'' (''C:'' @ [backslash] @ ''new'') ''dev=1''
      = ''C:'' @ [backslash] @ ''new=1''
   \<and> transform_name ci_config ''DEV.txt'' ''dev'' (''C:'' @ [backslash] @ ''new'')
      = Inr (''C:'' @ [CHR 0x0A] @ ''ew.txt'')
   \<and> re_sub_ignorecase ''dev'' (''v'' @ [backslash] @ ''1'') ''DEV=1'' = Inl ReError"
  by code_simp

text \<open>
  C3 (the code departs from the claim). A repository whose clone fails in all three
  attempts makes \<open>process_repository\<close> return 0, which \<open>run\<close> tallies as a success: the
  summary reads one successful repository out of one and the exit code is 0.
\<close>

theorem clone_failure_counted_as_success:
  "clone_repository failing_gateway [([''repos_temp''], Dir)]
       (construct_repo_url example_run_config ''broken'')
       (joinpath (work_dir example_run_config) (get_repo_name ''broken''))
     = ([([''repos_temp''], Dir)], Inr False)
   \<and> process_repository example_run_config failing_gateway [([''repos_temp''], Dir)]
       ''broken'' False False
     = ([([''repos_temp''], Dir)], Inr 0)
   \<and> run example_run_config failing_gateway [] (Some [''broken'']) False False
     = ([([''repos_temp''], Dir)],
        Inr (Some \<lparr> total_items = 0, successful_repos = 1, total_repos = 1 \<rparr>, 0))"
  by code_simp

text \<open>
  C5. A non-dry-run pass of fix mode over any list of replacement pairs leaves the
  paths of the filesystem as they are (no entry is created, deleted or renamed), and
  an entry that differs afterwards is a file whose content held the old string of one
  of the pairs, under the active case rule, before the pass; only its content differs.
\<close>

theorem fix_mode_changes_content_only:
  assumes "fix_replacements cfg fs repo_dir pairs False = (fs', n)"
  shows "map fst fs' = map fst fs
       \<and> (\<forall>k. map_of fs' k \<noteq> map_of fs k \<longrightarrow>
             (\<exists>c r c' old. map_of fs k = Some (File c r True)
                 \<and> map_of fs' k = Some (File c' r True)
                 \<and> old \<in> fst ` set pairs
                 \<and> present_in (case_sensitive cfg) old c))"
  using fix_replacements_content_step [OF assms]
  unfolding content_step_def by blast

theorem fix_mode_changes_content_only_witness:
  "fix_replacements example_config fix_fs [''r''] [(''dev'', ''prod'')] False
     = ([([''r''], Dir),
         ([''r'', ''prod-service.yaml''], File ''prod endpoint'' True True),
         ([''r'', ''prod''], Dir),
         ([''r'', ''prod'', ''readme.md''], File ''production'' True True)], 1)
   \<and> map fst (fst (fix_replacements example_config fix_fs [''r''] [(''dev'', ''prod'')] False))
     = map fst fix_fs
   \<and> present_in (case_sensitive example_config) ''dev'' ''dev endpoint''"
proof -
  let ?fs' = "[([''r''], Dir),
         ([''r'', ''prod-service.yaml''], File ''prod endpoint'' True True),
         ([''r'', ''prod''], Dir),
         ([''r'', ''prod'', ''readme.md''], File ''production'' True True)]"
  have a: "fix_replacements example_config fix_fs [''r''] [(''dev'', ''prod'')] False = (?fs', 1)"
    by code_simp
  have "contains ''dev'' ''dev endpoint''" by code_simp
  then have p: "present_in (case_sensitive example_config) ''dev'' ''dev endpoint''"
    by (simp add: present_in_def example_config_def contains_sublist)
  from fix_mode_changes_content_only [OF a] have "map fst ?fs' = map fst fix_fs"
    by blast
  with a p show ?thesis by simp
qed

text \<open>
  C2. In a well-formed filesystem, when the transformed name differs from the name of
  the entry and a sibling with the transformed name exists, \<open>create_renamed_copy\<close>
  returns \<open>False\<close> and leaves the filesystem as it is. Whatever a call does, also when
  it copies or raises, every entry that stood in the filesystem before the call
  stands there unchanged after it, and so it is for the whole loop over the
  replacement pairs: the copy engine overwrites nothing.
\<close>

theorem existing_target_never_overwritten:
  assumes "wf_fs fs"
  shows "(\<forall>new_name. transform_name cfg (name_of item) old_str new_str = Inr new_name
            \<and> new_name \<noteq> name_of item
            \<and> path_exists fs (joinpath (parent item) new_name)
          \<longrightarrow> create_renamed_copy cfg fs item old_str new_str dry_run = (fs, Inr False))
       \<and> (\<forall>k n. map_of fs k = Some n
          \<longrightarrow> map_of (fst (create_renamed_copy cfg fs item old_str new_str dry_run)) k = Some n)
       \<and> (\<forall>k n. map_of fs k = Some n
          \<longrightarrow> map_of (fst (copy_replacements cfg fs repo_dir pairs dry_run)) k = Some n)"
proof (intro conjI allI impI)
  fix new_name
  assume "transform_name cfg (name_of item) old_str new_str = Inr new_name
            \<and> new_name \<noteq> name_of item
            \<and> path_exists fs (joinpath (parent item) new_name)"
  then show "create_renamed_copy cfg fs item old_str new_str dry_run = (fs, Inr False)"
    by (simp add: create_renamed_copy_def Let_def)
next
  fix k n
  assume k: "map_of fs k = Some n"
  obtain fs' r where c: "create_renamed_copy cfg fs item old_str new_str dry_run = (fs', r)"
    by (cases "create_renamed_copy cfg fs item old_str new_str dry_run")
  from create_renamed_copy_keeps [OF assms c k]
  show "map_of (fst (create_renamed_copy cfg fs item old_str new_str dry_run)) k = Some n"
    by (simp add: c)
next
  fix k n
  assume "map_of fs k = Some n"
  with copy_replacements_keeps [OF assms, of cfg repo_dir pairs dry_run]
  show "map_of (fst (copy_replacements cfg fs repo_dir pairs dry_run)) k = Some n"
    by blast
qed

theorem existing_target_never_overwritten_witness:
  "wf_fs conflict_fs
   \<and> transform_name example_config (name_of [''r'', ''dev.txt'']) ''dev'' ''prod'' = Inr ''prod.txt''
   \<and> path_exists conflict_fs (joinpath (parent [''r'', ''dev.txt'']) ''prod.txt'')
   \<and> create_renamed_copy example_config conflict_fs [''r'', ''dev.txt''] ''dev'' ''prod'' False
       = (conflict_fs, Inr False)
   \<and> map_of (fst (create_renamed_copy example_config conflict_fs [''r'', ''dev.txt'']
                     ''dev'' ''prod'' False)) [''r'', ''prod.txt'']
       = Some (File ''keep me'' True True)
   \<and> map_of (fst (copy_replacements example_config conflict_fs [''r'']
                     [(''dev'', ''prod''), (''prod'', ''live'')] False)) [''r'', ''prod.txt'']
       = Some (File ''keep me'' True True)"
proof -
  have w: "wf_fs conflict_fs" by code_simp
  have t: "transform_name example_config (name_of [''r'', ''dev.txt'']) ''dev'' ''prod'' = Inr ''prod.txt''"
    by code_simp
  have n: "''prod.txt'' \<noteq> name_of [''r'', ''dev.txt'']" by code_simp
  have p: "path_exists conflict_fs (joinpath (parent [''r'', ''dev.txt'']) ''prod.txt'')"
    by code_simp
  have m: "map_of conflict_fs [''r'', ''prod.txt''] = Some (File ''keep me'' True True)"
    by code_simp
  note th = existing_target_never_overwritten
    [OF w, of example_config "[''r'', ''dev.txt'']" "''dev''" "''prod''" False
       "[''r'']" "[(''dev'', ''prod''), (''prod'', ''live'')]"]
  from th t n p
  have 1: "create_renamed_copy example_config conflict_fs [''r'', ''dev.txt''] ''dev'' ''prod'' False
       = (conflict_fs, Inr False)"
    by blast
  from th m
  have 2: "map_of (fst (create_renamed_copy example_config conflict_fs [''r'', ''dev.txt'']
                     ''dev'' ''prod'' False)) [''r'', ''prod.txt'']
       = Some (File ''keep me'' True True)"
    by blast
  from th m
  have 3: "map_of (fst (copy_replacements example_config conflict_fs [''r'']
                     [(''dev'', ''prod''), (''prod'', ''live'')] False)) [''r'', ''prod.txt'']
       = Some (File ''keep me'' True True)"
    by blast
  from w t p 1 2 3 show ?thesis by blast
qed

text \<open>
  C6. When \<open>create_renamed_copy\<close> copies an entry of a well-formed filesystem (normal
  mode, no dry run), the original entry and everything below it are unchanged, and
  every path whose entry differs after the call had no entry before it: the
  substitution touched the new copy only.
\<close>

theorem copy_leaves_original_unchanged:
  assumes "wf_fs fs"
    and "create_renamed_copy cfg fs original_item old_str new_str False = (fs', Inr True)"
  shows "(\<forall>k n. prefix original_item k \<and> map_of fs k = Some n \<longrightarrow> map_of fs' k = Some n)
       \<and> (\<forall>k. map_of fs' k \<noteq> map_of fs k \<longrightarrow> map_of fs k = None)"
proof (intro conjI allI impI)
  fix k n
  assume "prefix original_item k \<and> map_of fs k = Some n"
  then show "map_of fs' k = Some n"
    using create_renamed_copy_keeps [OF assms] by blast
next
  fix k
  assume d: "map_of fs' k \<noteq> map_of fs k"
  show "map_of fs k = None"
  proof (cases "map_of fs k")
    case None
    then show ?thesis .
  next
    case (Some n)
    from create_renamed_copy_keeps [OF assms Some] Some d show ?thesis by simp
  qed
qed

theorem copy_leaves_original_unchanged_witness:
  "wf_fs scenario_fs
   \<and> create_renamed_copy example_config scenario_fs [''r'', ''dev''] ''dev'' ''prod'' False
       = (scenario_fs @ [([''r'', ''prod''], Dir),
                         ([''r'', ''prod'', ''readme.md''], File ''prod mode'' True True)],
          Inr True)
   \<and> map_of (scenario_fs @ [([''r'', ''prod''], Dir),
                         ([''r'', ''prod'', ''readme.md''], File ''prod mode'' True True)])
        [''r'', ''dev'', ''readme.md'']
       = Some (File ''dev mode'' True True)"
proof -
  let ?fs' = "scenario_fs @ [([''r'', ''prod''], Dir),
                         ([''r'', ''prod'', ''readme.md''], File ''prod mode'' True True)]"
  have w: "wf_fs scenario_fs" by code_simp
  have c: "create_renamed_copy example_config scenario_fs [''r'', ''dev''] ''dev'' ''prod'' False
       = (?fs', Inr True)"
    by code_simp
  have p: "prefix [''r'', ''dev''] [''r'', ''dev'', ''readme.md'']" by simp
  have m: "map_of scenario_fs [''r'', ''dev'', ''readme.md''] = Some (File ''dev mode'' True True)"
    by code_simp
  from copy_leaves_original_unchanged [OF w c] p m
  have "map_of ?fs' [''r'', ''dev'', ''readme.md''] = Some (File ''dev mode'' True True)"
    by blast
  with w c show ?thesis by blast
qed

text \<open>
  C1, as the claim states it, fails: the dry-run count is not the count of the pass
  without dry run. In fix mode a matched directory with no file to change is counted
  by the dry run (2 against 1 below); in normal mode two names that differ in case
  only map to one target, which the second copy finds taken (2 against 1).
\<close>

theorem dry_run_counts_differ:
  "snd (fix_replacements example_config fix_fs [''r''] [(''dev'', ''prod'')] True) = 2
   \<and> snd (fix_replacements example_config fix_fs [''r''] [(''dev'', ''prod'')] False) = 1
   \<and> snd (copy_replacements ci_config twins_fs [''r''] [(''dev'', ''prod'')] True) = Inr 2
   \<and> snd (copy_replacements ci_config twins_fs [''r''] [(''dev'', ''prod'')] False) = Inr 1"
  by code_simp

text \<open>
  C1, amended. With dry run enabled neither the copy loop nor the fix loop changes the
  filesystem, whatever the tree and the replacement pairs. In normal mode the dry run
  of \<open>create_renamed_copy\<close> returns for an entry what the call without dry run returns
  for it on the same tree, whenever that call returns. In fix mode with the case rule
  on, a matched file that \<open>file\<close> classifies as text and that can be written is counted
  by the dry run exactly when the pass without dry run changes it.
\<close>

theorem dry_run_changes_nothing:
  "fst (copy_replacements cfg fs repo_dir pairs True) = fs
   \<and> fst (fix_replacements cfg fs repo_dir pairs True) = fs
   \<and> (\<forall>fs' b. create_renamed_copy cfg fs item old_str new_str False = (fs', Inr b)
        \<longrightarrow> create_renamed_copy cfg fs item old_str new_str True = (fs, Inr b))
   \<and> (\<forall>c r out. case_sensitive cfg \<and> lookup fs item = Some (File c r True)
          \<and> file_cmd cfg item (lookup fs item) = Inr out \<and> contains ''text'' (lower out)
        \<longrightarrow> snd (fix_item cfg fs item old_str new_str True)
            = snd (fix_item cfg fs item old_str new_str False))"
proof (intro conjI allI impI)
  show "fst (copy_replacements cfg fs repo_dir pairs True) = fs"
    by (rule copy_replacements_dry)
  show "fst (fix_replacements cfg fs repo_dir pairs True) = fs"
    by (rule fix_replacements_dry)
next
  fix fs' b
  assume "create_renamed_copy cfg fs item old_str new_str False = (fs', Inr b)"
  then show "create_renamed_copy cfg fs item old_str new_str True = (fs, Inr b)"
    by (rule create_renamed_copy_dry_agrees)
next
  fix c r out
  assume a: "case_sensitive cfg \<and> lookup fs item = Some (File c r True)
          \<and> file_cmd cfg item (lookup fs item) = Inr out \<and> contains ''text'' (lower out)"
  then have l: "lookup fs item = Some (File c r True)" by simp
  then obtain q where q: "canon fs item = Some q" "q \<noteq> []" "map_of fs q = Some (File c r True)"
    by (auto simp: lookup_def split: option.splits if_splits)
  have nd: "\<not> is_dir fs item" using l by (simp add: is_dir_def)
  show "snd (fix_item cfg fs item old_str new_str True)
            = snd (fix_item cfg fs item old_str new_str False)"
    using a nd q
    by (auto simp: fix_item_def replace_content_in_file_def replace_content_body_def
          read_text_def write_text_def split: sum.splits)
qed

theorem dry_run_changes_nothing_witness:
  "fst (copy_replacements example_config scenario_fs [''r''] [(''dev'', ''prod'')] True) = scenario_fs
   \<and> fst (fix_replacements example_config fix_fs [''r''] [(''dev'', ''prod'')] True) = fix_fs
   \<and> create_renamed_copy example_config scenario_fs [''r'', ''dev''] ''dev'' ''prod'' False
       = (scenario_fs @ [([''r'', ''prod''], Dir),
                         ([''r'', ''prod'', ''readme.md''], File ''prod mode'' True True)],
          Inr True)
   \<and> create_renamed_copy example_config scenario_fs [''r'', ''dev''] ''dev'' ''prod'' True
       = (scenario_fs, Inr True)
   \<and> lookup fix_fs [''r'', ''prod-service.yaml''] = Some (File ''dev endpoint'' True True)
   \<and> snd (fix_item example_config fix_fs [''r'', ''prod-service.yaml''] ''dev'' ''prod'' True) = 1
   \<and> snd (fix_item example_config fix_fs [''r'', ''prod-service.yaml''] ''dev'' ''prod'' False) = 1"
proof -
  let ?fs' = "scenario_fs @ [([''r'', ''prod''], Dir),
                         ([''r'', ''prod'', ''readme.md''], File ''prod mode'' True True)]"
  let ?out = "''/r/prod-service.yaml: ASCII text''"
  have c: "create_renamed_copy example_config scenario_fs [''r'', ''dev''] ''dev'' ''prod'' False
       = (?fs', Inr True)"
    by code_simp
  have l: "lookup fix_fs [''r'', ''prod-service.yaml''] = Some (File ''dev endpoint'' True True)"
    by code_simp
  have h: "case_sensitive example_config
     \<and> lookup fix_fs [''r'', ''prod-service.yaml''] = Some (File ''dev endpoint'' True True)
     \<and> file_cmd example_config [''r'', ''prod-service.yaml'']
          (lookup fix_fs [''r'', ''prod-service.yaml'']) = Inr ?out
     \<and> contains ''text'' (lower ?out)"
    by code_simp
  have d: "snd (fix_item example_config fix_fs [''r'', ''prod-service.yaml''] ''dev'' ''prod'' True) = 1"
    by code_simp
  from dry_run_changes_nothing
    [of example_config scenario_fs "[''r'']" "[(''dev'', ''prod'')]" "[''r'', ''dev'']" "''dev''" "''prod''"] c
  have 1: "fst (copy_replacements example_config scenario_fs [''r''] [(''dev'', ''prod'')] True) = scenario_fs"
    and 2: "create_renamed_copy example_config scenario_fs [''r'', ''dev''] ''dev'' ''prod'' True
       = (scenario_fs, Inr True)"
    by blast+
  from dry_run_changes_nothing
    [of example_config fix_fs "[''r'']" "[(''dev'', ''prod'')]" "[''r'', ''prod-service.yaml'']"
        "''dev''" "''prod''"] h
  have 3: "fst (fix_replacements example_config fix_fs [''r''] [(''dev'', ''prod'')] True) = fix_fs"
    and 4: "snd (fix_item example_config fix_fs [''r'', ''prod-service.yaml''] ''dev'' ''prod'' True)
            = snd (fix_item example_config fix_fs [''r'', ''prod-service.yaml''] ''dev'' ''prod'' False)"
    by blast+
  from 1 2 3 4 c d l show ?thesis by simp
qed

end
